theory Spec2Isabelle
  imports Complex_Main "HOL-Library.Word"
begin

section \<open>JavaScript strings and numbers\<close>

text \<open>
  A JavaScript string is a sequence of UTF-16 code units; \<open>length\<close>, \<open>split\<close>,
  \<open>trim\<close> and the regular expressions of \<open>pages/index.tsx\<close> (none has the \<open>u\<close>
  flag) all work on code units. String literals of the source are ASCII and are written
  through \<open>lit\<close>.
\<close>

type_synonym cu = "16 word"
type_synonym jsstring = "cu list"

definition lit :: "string \<Rightarrow> jsstring" where
  "lit s = map (\<lambda>c. of_char c) s"

definition LF :: cu where "LF = 0x0A"
definition CR :: cu where "CR = 0x0D"

text \<open>
  The class \<open>\s\<close> of a regular expression and the characters removed by \<open>trim()\<close> are
  the same set: WhiteSpace (TAB, VT, FF, SP, NBSP, ZWNBSP and the category Zs) and
  LineTerminator (LF, CR, LS, PS).
\<close>

definition is_ws :: "cu \<Rightarrow> bool" where
  "is_ws c \<longleftrightarrow>
     c = 0x09 \<or> c = 0x0A \<or> c = 0x0B \<or> c = 0x0C \<or> c = 0x0D \<or> c = 0x20 \<or> c = 0xA0 \<or>
     c = 0x1680 \<or> (0x2000 \<le> c \<and> c \<le> 0x200A) \<or> c = 0x2028 \<or> c = 0x2029 \<or>
     c = 0x202F \<or> c = 0x205F \<or> c = 0x3000 \<or> c = 0xFEFF"

text \<open>The class \<open>[.!?]\<close>.\<close>

definition is_terminal :: "cu \<Rightarrow> bool" where
  "is_terminal c \<longleftrightarrow> c = 0x2E \<or> c = 0x21 \<or> c = 0x3F"

text \<open>\<open>String.prototype.trim\<close>.\<close>

definition trim :: "jsstring \<Rightarrow> jsstring" where
  "trim s = rev (dropWhile is_ws (rev (dropWhile is_ws s)))"

text \<open>\<open>Number.prototype.toString\<close> on an integer, in decimal.\<close>

definition digit :: "nat \<Rightarrow> cu" where
  "digit d = of_nat (48 + d)"

fun dec :: "nat \<Rightarrow> jsstring" where
  "dec n = (if n < 10 then [digit n] else dec (n div 10) @ [digit (n mod 10)])"

declare dec.simps [simp del]

definition toString :: "int \<Rightarrow> jsstring" where
  "toString n = (if n < 0 then lit ''-'' @ dec (nat (- n)) else dec (nat n))"

text \<open>\<open>String.prototype.padStart(w, '0')\<close>.\<close>

definition padStart0 :: "nat \<Rightarrow> jsstring \<Rightarrow> jsstring" where
  "padStart0 w s = replicate (w - length s) (digit 0) @ s"

text \<open>
  A JavaScript number is a binary64 floating-point value; a finite number is modelled by
  its exact value. A duration and a percent are integers and are kept in an \<open>int\<close>.
  Every integer up to \<open>2 ^ 53\<close> in magnitude is a binary64 value, and the sums,
  remainders and floored quotients that the source takes of such integers are the exact
  ones as long as the operands and the sums stay below \<open>2 ^ 53\<close>. Beyond that, and for
  the non-finite numbers \<open>Infinity\<close> and \<open>NaN\<close>, the integers of the model do not
  follow the code; the properties of the export are stated below that bound.

  A fraction reported by a collaborator is not an integer, nor is its product with a
  stage weight, and both are rounded. \<open>fl x\<close> is the binary64 value nearest to the real
  \<open>x\<close>, a tie going to the value with the even significand. The binary64 values are the
  multiples of \<open>2 ^ -1074\<close> with a numerator of at most 53 bits, and the multiples of
  \<open>2 ^ (k - 1074)\<close> with such a numerator for every \<open>k\<close>; so \<open>x\<close> is scaled by
  \<open>2 ^ 1074\<close>, the bits beyond the first 53 of its integer part are dropped by a
  division by \<open>2 ^ k\<close>, and the quotient is rounded to an integer. \<open>bits n\<close> is the
  length of the binary numeral of \<open>n\<close>, and \<open>rhe\<close> rounds to the nearest integer, a
  tie to the even one. Overflow to \<open>Infinity\<close>, which starts at \<open>2 ^ 1024\<close>, is not
  modelled.
\<close>

function bits :: "int \<Rightarrow> nat" where
  "bits n = (if n \<le> 0 then 0 else Suc (bits (n div 2)))"
  by pat_completeness auto

termination
  by (relation "measure nat") auto

declare bits.simps [simp del]

definition rhe :: "real \<Rightarrow> int" where
  "rhe z =
     (let n = \<lfloor>z\<rfloor>; r = z - of_int n in
      if r < 1 / 2 then n else if 1 / 2 < r then n + 1 else if even n then n else n + 1)"

definition fl :: "real \<Rightarrow> real" where
  "fl x =
     (let y = \<bar>x\<bar> * 2 ^ 1074; k = bits \<lfloor>y\<rfloor> - 53 in
      sgn x * (of_int (rhe (y / 2 ^ k)) * 2 ^ k / 2 ^ 1074))"

text \<open>\<open>Math.round\<close> rounds to the nearest integer, a tie towards plus infinity.\<close>

definition js_round :: "real \<Rightarrow> int" where
  "js_round x = \<lfloor>x + 1 / 2\<rfloor>"

text \<open>The remainder operator \<open>%\<close> on integers takes the sign of the dividend.\<close>

definition js_rem :: "int \<Rightarrow> int \<Rightarrow> int" where
  "js_rem a b = sgn a * (\<bar>a\<bar> mod \<bar>b\<bar>)"

section \<open>Data model\<close>

text \<open>
  The types \<open>UploadedImage\<close>, \<open>OcrResult\<close> and \<open>SubtitleItem\<close> of
  \<open>pages/index.tsx\<close>. Field names carry a prefix where two records share a name or the
  name is reserved; the \<open>file\<close> handle of an image is not modelled.
\<close>

record UploadedImage =
  img_id :: jsstring
  img_name :: jsstring
  img_url :: jsstring

record OcrResult =
  imageId :: jsstring
  ocr_text :: jsstring

record SubtitleItem =
  sub_id :: jsstring
  sub_text :: jsstring
  durationMs :: int
  pageIndex :: nat

section \<open>Caption segmentation (runAgent, lines 59--63)\<close>

text \<open>
  \<open>regex_match prev s\<close> is the length of the match of
  \<open>/\n{2,}|(?<=[.!?])\s+/\<close> anchored at the current position, where \<open>s\<close> is the input
  from that position on and \<open>prev\<close> the code unit just before it (\<open>None\<close> at the start
  of the input). The first alternative is tried first; both quantifiers are greedy.
\<close>

definition regex_match :: "cu option \<Rightarrow> jsstring \<Rightarrow> nat option" where
  "regex_match prev s =
     (let n = length (takeWhile (\<lambda>c. c = LF) s) in
      if 2 \<le> n then Some n
      else if (case prev of None \<Rightarrow> False | Some c \<Rightarrow> is_terminal c) then
        (let m = length (takeWhile is_ws s) in if 1 \<le> m then Some m else None)
      else None)"

lemma regex_match_pos: "regex_match prev s = Some n \<Longrightarrow> 0 < n \<and> n \<le> length s"
  by (auto simp: regex_match_def Let_def length_takeWhile_le split: if_splits)

text \<open>
  \<open>String.prototype.split\<close> with a regular expression: the matcher is tried at every
  position \<open>q\<close> from the start \<open>p\<close> of the current piece on; at a match the piece
  \<open>p..q\<close> is emitted and both indices move to the end of the match; at the end of the
  input the last piece is emitted. Here \<open>piece\<close> is the substring \<open>p..q\<close> and the
  third argument the input from \<open>q\<close> on.
\<close>

function split_from :: "cu option \<Rightarrow> jsstring \<Rightarrow> jsstring \<Rightarrow> jsstring list" where
  "split_from prev piece [] = [piece]"
| "split_from prev piece (c # cs) =
     (case regex_match prev (c # cs) of
        None \<Rightarrow> split_from (Some c) (piece @ [c]) cs
      | Some n \<Rightarrow> piece # split_from (Some (last (take n (c # cs)))) [] (drop n (c # cs)))"
  by pat_completeness auto
termination
  by (relation "measure (\<lambda>(prev, piece, s). length s)")
     (auto dest: regex_match_pos)

definition js_split :: "jsstring \<Rightarrow> jsstring list" where
  "js_split s = split_from None [] s"

text \<open>
  The chain \<open>r.text.replace(/\r/g, '').split(...).map(s => s.trim()).filter(Boolean)\<close>.
\<close>

definition chunks :: "jsstring \<Rightarrow> jsstring list" where
  "chunks t = filter (\<lambda>s. s \<noteq> []) (map trim (js_split (filter (\<lambda>c. c \<noteq> CR) t)))"

section \<open>Duration estimate and timeline (runAgent, lines 57--73)\<close>

text \<open>
  \<open>Math.max(1500, Math.min(7000, Math.round(60 * len)))\<close> with \<open>len = chunk.length\<close>,
  the number of code units of the chunk.
\<close>

definition estimateDuration :: "jsstring \<Rightarrow> int" where
  "estimateDuration chunk =
     (let len = length chunk in max 1500 (min 7000 (js_round (60 * real len))))"

text \<open>
  The inner loop \<open>for (const chunk of chunks) subs.push(...)\<close>: the id is built from
  \<open>subs.length\<close>, the number of items pushed so far by the whole run.
\<close>

fun push_chunks :: "OcrResult \<Rightarrow> nat \<Rightarrow> jsstring list \<Rightarrow> SubtitleItem list \<Rightarrow> SubtitleItem list" where
  "push_chunks r pgIndex [] subs = subs"
| "push_chunks r pgIndex (chunk # rest) subs =
     push_chunks r pgIndex rest
       (subs @ [\<lparr>sub_id = imageId r @ lit ''-'' @ toString (int (length subs)),
                 sub_text = chunk,
                 durationMs = estimateDuration chunk,
                 pageIndex = pgIndex\<rparr>])"

text \<open>The outer loop \<open>results.forEach((r, pageIndex) => ...)\<close>, from index \<open>pgIndex\<close> on.\<close>

fun segment_pages :: "OcrResult list \<Rightarrow> nat \<Rightarrow> SubtitleItem list \<Rightarrow> SubtitleItem list" where
  "segment_pages [] pgIndex subs = subs"
| "segment_pages (r # rs) pgIndex subs =
     segment_pages rs (Suc pgIndex) (push_chunks r pgIndex (chunks (ocr_text r)) subs)"

text \<open>The fallback loop \<open>images.forEach((img, idx) => subs.push(...))\<close>.\<close>

fun push_fallback :: "UploadedImage list \<Rightarrow> nat \<Rightarrow> SubtitleItem list \<Rightarrow> SubtitleItem list" where
  "push_fallback [] idx subs = subs"
| "push_fallback (img # imgs) idx subs =
     push_fallback imgs (Suc idx)
       (subs @ [\<lparr>sub_id = img_id img @ lit ''-fallback'',
                 sub_text = lit ''Page '' @ toString (int idx + 1),
                 durationMs = 2000,
                 pageIndex = idx\<rparr>])"

text \<open>Lines 57--73: the value passed to \<open>setSubtitles\<close>.\<close>

definition buildSubtitles :: "UploadedImage list \<Rightarrow> OcrResult list \<Rightarrow> SubtitleItem list" where
  "buildSubtitles imgs results =
     (let subs = segment_pages results 0 [] in
      if length subs = 0 then push_fallback imgs 0 subs else subs)"

section \<open>Component state and the two asynchronous actions\<close>

datatype resolution_t = R720p | R1080p

record app_state =
  images :: "UploadedImage list"
  isProcessing :: bool
  ocrResults :: "OcrResult list"
  subtitles :: "SubtitleItem list"
  agentStep :: int
  agentLabel :: jsstring
  videoUrl :: "jsstring option"
  bgmEnabled :: bool
  fps :: int
  resolution :: resolution_t

text \<open>The state of the first render: the arguments of the \<open>useState\<close> calls.\<close>

definition initial_state :: app_state where
  "initial_state =
     \<lparr>images = [], isProcessing = False, ocrResults = [], subtitles = [], agentStep = 0,
      agentLabel = lit ''Idle'', videoUrl = None, bgmEnabled = True, fps = 30,
      resolution = R720p\<rparr>"

text \<open>
  An external collaborator (\<open>recognizeOcrForImages\<close>, \<open>renderAnimeToVideo\<close>) is not
  part of the program. One call of it is described by what the program observes: the
  fractions it passes to the progress callback, in order, and how its promise settles.
\<close>

datatype 'a settled = Resolved 'a | Rejected jsstring

type_synonym 'a collaborator_call = "real list \<times> 'a settled"

text \<open>
  Each definition below is one synchronous section of an action: the state updates made
  between two suspension points.
\<close>

text \<open>runAgent, lines 45--47.\<close>

definition runAgent_start :: "app_state \<Rightarrow> app_state" where
  "runAgent_start s =
     s\<lparr>isProcessing := True, agentStep := 0, agentLabel := lit ''Analyzing pages with OCR''\<rparr>"

text \<open>
  The progress callback of line 51, \<open>setAgentStep(Math.round(progress * 25))\<close>. Its
  argument is a number: \<open>fl progress\<close> is the binary64 value that reaches the callback
  when the collaborator reports the fraction \<open>progress\<close> (the same value, when that is a
  binary64 value already). The product is a binary64 operation and is rounded in its turn.
\<close>

definition ocr_onProgress :: "real \<Rightarrow> app_state \<Rightarrow> app_state" where
  "ocr_onProgress progress s = s\<lparr>agentStep := js_round (fl (fl progress * 25))\<rparr>"

text \<open>
  runAgent, lines 53--78, after the OCR promise has resolved with \<open>results\<close>;
  \<open>imgs\<close> is the \<open>images\<close> array captured by the callback.
\<close>

definition runAgent_built :: "UploadedImage list \<Rightarrow> OcrResult list \<Rightarrow> app_state \<Rightarrow> app_state" where
  "runAgent_built imgs results s =
     s\<lparr>ocrResults := results,
       agentLabel := lit ''Building screenplay'',
       subtitles := buildSubtitles imgs results,
       agentStep := 50,
       agentLabel := lit ''Planning camera motions''\<rparr>"

text \<open>runAgent, lines 80--84, after the 600 ms timer.\<close>

definition runAgent_planned :: "app_state \<Rightarrow> app_state" where
  "runAgent_planned s =
     s\<lparr>agentStep := 65, agentLabel := lit ''Ready to render'', isProcessing := False\<rparr>"

text \<open>renderVideo, lines 89--91.\<close>

definition renderVideo_start :: "app_state \<Rightarrow> app_state" where
  "renderVideo_start s =
     s\<lparr>isProcessing := True, agentLabel := lit ''Rendering animation to video'',
       agentStep := 70\<rparr>"

text \<open>
  The progress callback of line 101, \<open>setAgentStep(70 + Math.round(30 * p))\<close>, with
  the argument and the product as binary64 values in the same way.
\<close>

definition render_onProgress :: "real \<Rightarrow> app_state \<Rightarrow> app_state" where
  "render_onProgress p s = s\<lparr>agentStep := 70 + js_round (fl (30 * fl p))\<rparr>"

text \<open>renderVideo, lines 103--106.\<close>

definition renderVideo_done :: "jsstring \<Rightarrow> app_state \<Rightarrow> app_state" where
  "renderVideo_done url s =
     s\<lparr>videoUrl := Some url, isProcessing := False, agentLabel := lit ''Completed'',
       agentStep := 100\<rparr>"

text \<open>
  \<open>states_after s fs\<close> lists the successive states reached from \<open>s\<close> by the updates
  \<open>fs\<close>, applied in order.
\<close>

fun states_after :: "app_state \<Rightarrow> (app_state \<Rightarrow> app_state) list \<Rightarrow> app_state list" where
  "states_after s [] = []"
| "states_after s (f # fs) = f s # states_after (f s) fs"

text \<open>
  \<open>runAgent s call\<close>: the action started in state \<open>s\<close> against a collaborator that
  behaves as \<open>call\<close>. The result is the list of states the component passes through, one
  per synchronous section, and how the promise returned by \<open>runAgent\<close> settles. There is
  no \<open>try\<close> in the source: when the awaited promise rejects, the rest of the function
  body is skipped and the returned promise rejects with the same reason.
\<close>

definition runAgent :: "app_state \<Rightarrow> OcrResult list collaborator_call \<Rightarrow> app_state list \<times> unit settled" where
  "runAgent s call =
     (if length (images s) = 0 then ([], Resolved ())
      else
        (let reporting = runAgent_start # map ocr_onProgress (fst call) in
         case snd call of
           Rejected e \<Rightarrow> (states_after s reporting, Rejected e)
         | Resolved results \<Rightarrow>
             (states_after s (reporting @ [runAgent_built (images s) results, runAgent_planned]),
              Resolved ())))"

definition renderVideo :: "app_state \<Rightarrow> jsstring collaborator_call \<Rightarrow> app_state list \<times> unit settled" where
  "renderVideo s call =
     (if length (images s) = 0 \<or> length (subtitles s) = 0 then ([], Resolved ())
      else
        (let reporting = renderVideo_start # map render_onProgress (fst call) in
         case snd call of
           Rejected e \<Rightarrow> (states_after s reporting, Rejected e)
         | Resolved url \<Rightarrow>
             (states_after s (reporting @ [renderVideo_done url]), Resolved ())))"

text \<open>The state in which an action leaves the component.\<close>

definition final_state :: "app_state \<Rightarrow> app_state list \<times> unit settled \<Rightarrow> app_state" where
  "final_state s run = last (s # fst run)"

section \<open>Caption edits (lines 134--139 and 203)\<close>

text \<open>The updater \<open>prev => prev.map(s => s.id === id ? { ...s, text } : s)\<close>.\<close>

definition updateSubtitleText :: "jsstring \<Rightarrow> jsstring \<Rightarrow> app_state \<Rightarrow> app_state" where
  "updateSubtitleText ident txt st =
     st\<lparr>subtitles := map (\<lambda>s. if sub_id s = ident then s\<lparr>sub_text := txt\<rparr> else s) (subtitles st)\<rparr>"

definition updateSubtitleDuration :: "jsstring \<Rightarrow> int \<Rightarrow> app_state \<Rightarrow> app_state" where
  "updateSubtitleDuration ident ms st =
     st\<lparr>subtitles := map (\<lambda>s. if sub_id s = ident then s\<lparr>durationMs := ms\<rparr> else s) (subtitles st)\<rparr>"

text \<open>
  The \<open>onChange\<close> handler of the duration field (line 203):
  \<open>updateSubtitleDuration(s.id, Math.max(500, parseInt(e.target.value) || 0))\<close>.
  \<open>parseInt\<close> without a radix skips leading white space, reads a sign, takes the prefix
  \<open>0x\<close> or \<open>0X\<close> as radix 16, and reads the longest run of digits of the radix; its
  result is \<open>NaN\<close>, here \<open>None\<close>, when that run is empty.
\<close>

definition digit_value :: "cu \<Rightarrow> nat" where
  "digit_value c =
     (if 0x30 \<le> c \<and> c \<le> 0x39 then unat c - 48
      else if 0x61 \<le> c \<and> c \<le> 0x7A then unat c - 87
      else if 0x41 \<le> c \<and> c \<le> 0x5A then unat c - 55
      else 36)"

definition parseInt :: "jsstring \<Rightarrow> int option" where
  "parseInt input =
     (let S = dropWhile is_ws input;
          sign = (if S \<noteq> [] \<and> hd S = 0x2D then - 1 else 1 :: int);
          S1 = (if S \<noteq> [] \<and> (hd S = 0x2B \<or> hd S = 0x2D) then tl S else S);
          hex = (2 \<le> length S1 \<and> S1 ! 0 = 0x30 \<and> (S1 ! 1 = 0x78 \<or> S1 ! 1 = 0x58));
          R = (if hex then 16 else 10 :: nat);
          S2 = (if hex then drop 2 S1 else S1);
          Z = takeWhile (\<lambda>c. digit_value c < R) S2
      in if Z = [] then None
         else Some (sign * int (foldl (\<lambda>a c. a * R + digit_value c) 0 Z)))"

text \<open>\<open>x || 0\<close> for a number \<open>x\<close>: \<open>NaN\<close> and zero are falsy.\<close>

definition or0 :: "int option \<Rightarrow> int" where
  "or0 x = (case x of None \<Rightarrow> 0 | Some n \<Rightarrow> if n = 0 then 0 else n)"

definition onDurationChange :: "jsstring \<Rightarrow> jsstring \<Rightarrow> app_state \<Rightarrow> app_state" where
  "onDurationChange ident v st = updateSubtitleDuration ident (max 500 (or0 (parseInt v))) st"

section \<open>The other state updates\<close>

text \<open>
  onFilesSelected, lines 37--40; \<open>items\<close> is the array built and sorted in lines 29--36.
\<close>

definition onFilesSelected :: "UploadedImage list \<Rightarrow> app_state \<Rightarrow> app_state" where
  "onFilesSelected items s = s\<lparr>images := items, ocrResults := [], subtitles := [], videoUrl := None\<rparr>"

text \<open>The \<open>onClick\<close> handler of the Reset button (line 169).\<close>

definition reset :: "app_state \<Rightarrow> app_state" where
  "reset s = s\<lparr>images := [], ocrResults := [], subtitles := [], videoUrl := None\<rparr>"

text \<open>
  Every place of the source that changes the state, as one synchronous update. A run of the
  component is a sequence of them; the asynchronous actions contribute their sections in
  order, interleaved with whatever the user does in between.
\<close>

datatype update =
    FilesSelected "UploadedImage list"
  | ResetClicked
  | RunAgentStarted
  | OcrProgress real
  | OcrResolved "UploadedImage list" "OcrResult list"
  | PlanningDone
  | RenderStarted
  | RenderProgress real
  | RenderResolved jsstring
  | TextEdited jsstring jsstring
  | DurationEdited jsstring jsstring
  | BgmToggled bool
  | FpsSelected int
  | ResolutionSelected resolution_t

fun apply_update :: "update \<Rightarrow> app_state \<Rightarrow> app_state" where
  "apply_update (FilesSelected items) s = onFilesSelected items s"
| "apply_update ResetClicked s = reset s"
| "apply_update RunAgentStarted s = (if length (images s) = 0 then s else runAgent_start s)"
| "apply_update (OcrProgress p) s = ocr_onProgress p s"
| "apply_update (OcrResolved imgs results) s = runAgent_built imgs results s"
| "apply_update PlanningDone s = runAgent_planned s"
| "apply_update RenderStarted s =
     (if length (images s) = 0 \<or> length (subtitles s) = 0 then s else renderVideo_start s)"
| "apply_update (RenderProgress p) s = render_onProgress p s"
| "apply_update (RenderResolved url) s = renderVideo_done url s"
| "apply_update (TextEdited ident txt) s = updateSubtitleText ident txt s"
| "apply_update (DurationEdited ident v) s = onDurationChange ident v s"
| "apply_update (BgmToggled b) s = s\<lparr>bgmEnabled := b\<rparr>"
| "apply_update (FpsSelected n) s = s\<lparr>fps := n\<rparr>"
| "apply_update (ResolutionSelected r) s = s\<lparr>resolution := r\<rparr>"

definition apply_updates :: "update list \<Rightarrow> app_state \<Rightarrow> app_state" where
  "apply_updates us s = foldl (\<lambda>st u. apply_update u st) s us"

section \<open>Subtitle export (exportSrt, lines 109--132)\<close>

text \<open>
  The local function \<open>fmt\<close>, for a time \<open>ms\<close> that is an integer below \<open>2 ^ 53\<close>
  in magnitude. There the remainders are exact, and \<open>Math.floor\<close> of a quotient is
  \<open>div\<close>: the binary64 quotient differs from the exact one by less than
  \<open>1 / 3600000\<close>, too little to reach the next integer. \<open>toString\<close> writes such a
  number of hours in plain decimal digits.
\<close>

definition fmt :: "int \<Rightarrow> jsstring" where
  "fmt ms =
     (let h = ms div 3600000;
          m = js_rem ms 3600000 div 60000;
          sec = js_rem ms 60000 div 1000;
          cs = js_rem ms 1000
      in padStart0 2 (toString h) @ lit '':'' @ padStart0 2 (toString m) @ lit '':'' @
         padStart0 2 (toString sec) @ lit '','' @ padStart0 3 (toString cs))"

text \<open>
  The loop \<open>subtitles.forEach((s, idx) => ...)\<close> with the running time \<open>t\<close> and the
  array \<open>lines\<close>. The sum \<open>t + s.durationMs\<close> is the exact one as long as it stays
  below \<open>2 ^ 53\<close>.
\<close>

fun srt_lines :: "SubtitleItem list \<Rightarrow> nat \<Rightarrow> int \<Rightarrow> jsstring list \<Rightarrow> jsstring list" where
  "srt_lines [] idx t lines = lines"
| "srt_lines (s # rest) idx t lines =
     (let start = t; fin = t + durationMs s in
      srt_lines rest (Suc idx) fin
        (lines @ [toString (int idx + 1), fmt start @ lit '' --> '' @ fmt fin, sub_text s, []]))"

text \<open>\<open>Array.prototype.join\<close>.\<close>

fun join :: "jsstring \<Rightarrow> jsstring list \<Rightarrow> jsstring" where
  "join sep [] = []"
| "join sep [x] = x"
| "join sep (x # y # ys) = x @ sep @ join sep (y # ys)"

text \<open>The content of the Blob that \<open>exportSrt\<close> offers for download.\<close>

definition exportSrt :: "app_state \<Rightarrow> jsstring" where
  "exportSrt st = join [LF] (srt_lines (subtitles st) 0 0 [])"

section \<open>Reference notions used to state the properties\<close>

text \<open>
  The definitions of this section are not part of the program. They fix the meaning of the
  words of the specification that the properties below are stated with.
\<close>

text \<open>The cumulative start time of the \<open>i\<close>-th caption: the durations before it, added up.\<close>

definition start_time :: "SubtitleItem list \<Rightarrow> nat \<Rightarrow> int" where
  "start_time subs i = sum_list (map durationMs (take i subs))"

text \<open>The position of the \<open>i\<close>-th caption among the captions of its own page.\<close>

definition index_within_page :: "SubtitleItem list \<Rightarrow> nat \<Rightarrow> nat" where
  "index_within_page subs i =
     length (filter (\<lambda>u. pageIndex u = pageIndex (subs ! i)) (take i subs))"

text \<open>
  What holds of the \<open>i\<close>-th caption of a list made by segmenting the OCR \<open>results\<close>:
  its page index names one of them, its id is the image id of that result, a hyphen and
  the decimal numeral of \<open>i\<close>, its text is one of the chunks of that page and its duration
  the estimate for the text.
\<close>

definition segmented_at :: "OcrResult list \<Rightarrow> SubtitleItem list \<Rightarrow> nat \<Rightarrow> bool" where
  "segmented_at results subs i \<longleftrightarrow>
     pageIndex (subs ! i) < length results \<and>
     sub_id (subs ! i) = imageId (results ! pageIndex (subs ! i)) @ lit ''-'' @ toString (int i) \<and>
     sub_text (subs ! i) \<in> set (chunks (ocr_text (results ! pageIndex (subs ! i)))) \<and>
     durationMs (subs ! i) = estimateDuration (sub_text (subs ! i))"






text \<open>
  A reader of the SubRip format: the document is cut into lines, the lines into blocks at
  blank lines; a block is a counter, a line \<open>start --> end\<close> with both times as
  \<open>hours:minutes:seconds,milliseconds\<close>, and the lines of the text. It returns the
  triples (start, end, text) in milliseconds, or \<open>None\<close> for a malformed document.
\<close>

fun split_on :: "'a \<Rightarrow> 'a list \<Rightarrow> 'a list list" where
  "split_on d [] = [[]]"
| "split_on d (c # cs) =
     (if c = d then [] # split_on d cs
      else (case split_on d cs of [] \<Rightarrow> [[c]] | p # ps \<Rightarrow> (c # p) # ps))"

fun blocks_of :: "jsstring list \<Rightarrow> jsstring list \<Rightarrow> jsstring list list" where
  "blocks_of cur [] = (if cur = [] then [] else [cur])"
| "blocks_of cur (l # ls) =
     (if l = [] then (if cur = [] then blocks_of [] ls else cur # blocks_of [] ls)
      else blocks_of (cur @ [l]) ls)"

definition read_nat :: "jsstring \<Rightarrow> nat option" where
  "read_nat s =
     (if s \<noteq> [] \<and> (\<forall>c \<in> set s. digit_value c < 10)
      then Some (foldl (\<lambda>a c. a * 10 + digit_value c) 0 s) else None)"

definition read_stamp :: "jsstring \<Rightarrow> int option" where
  "read_stamp s =
     (case split_on 0x3A s of
        [h, m, r] \<Rightarrow>
          (case split_on 0x2C r of
             [sec, ms] \<Rightarrow>
               (case (read_nat h, read_nat m, read_nat sec, read_nat ms) of
                  (Some a, Some b, Some c, Some d) \<Rightarrow>
                    Some (int (((a * 60 + b) * 60 + c) * 1000 + d))
                | _ \<Rightarrow> None)
           | _ \<Rightarrow> None)
      | _ \<Rightarrow> None)"

definition read_block :: "jsstring list \<Rightarrow> (int \<times> int \<times> jsstring) option" where
  "read_block b =
     (case b of
        counter # timing # body \<Rightarrow>
          (case split_on 0x20 timing of
             [a, arrow, z] \<Rightarrow>
               (case (read_nat counter, read_stamp a, read_stamp z) of
                  (Some n, Some t0, Some t1) \<Rightarrow>
                    if arrow = lit ''-->'' then Some (t0, t1, join [LF] body) else None
                | _ \<Rightarrow> None)
           | _ \<Rightarrow> None)
      | _ \<Rightarrow> None)"

fun all_some :: "'a option list \<Rightarrow> 'a list option" where
  "all_some [] = Some []"
| "all_some (None # xs) = None"
| "all_some (Some x # xs) = (case all_some xs of None \<Rightarrow> None | Some ys \<Rightarrow> Some (x # ys))"

definition read_srt :: "jsstring \<Rightarrow> (int \<times> int \<times> jsstring) list option" where
  "read_srt doc = all_some (map read_block (blocks_of [] (split_on LF doc)))"

section \<open>Sample data\<close>

definition page :: "string \<Rightarrow> UploadedImage" where
  "page i = \<lparr>img_id = lit i, img_name = lit i @ lit ''.png'', img_url = lit ''blob:'' @ lit i\<rparr>"

definition ocr :: "string \<Rightarrow> string \<Rightarrow> OcrResult" where
  "ocr i t = \<lparr>imageId = lit i, ocr_text = lit t\<rparr>"

definition caption :: "string \<Rightarrow> string \<Rightarrow> int \<Rightarrow> nat \<Rightarrow> SubtitleItem" where
  "caption i t d p = \<lparr>sub_id = lit i, sub_text = lit t, durationMs = d, pageIndex = p\<rparr>"

definition with_pages :: "UploadedImage list \<Rightarrow> app_state" where
  "with_pages imgs = initial_state\<lparr>images := imgs\<rparr>"

definition with_captions :: "UploadedImage list \<Rightarrow> SubtitleItem list \<Rightarrow> app_state" where
  "with_captions imgs subs = initial_state\<lparr>images := imgs, subtitles := subs\<rparr>"

section \<open>Rounding to binary64\<close>

lemma bits_0: "n \<le> 0 \<Longrightarrow> bits n = 0"
  by (simp add: bits.simps)

lemma bits_less: "n < 2 ^ bits n"
proof (induction n rule: bits.induct)
  case (1 n)
  show ?case
  proof (cases "n \<le> 0")
    case True
    then show ?thesis by (simp add: bits_0)
  next
    case False
    then have "n div 2 < 2 ^ bits (n div 2)" by (rule "1.IH")
    then have "n < 2 * 2 ^ bits (n div 2)" by linarith
    with False show ?thesis by (subst bits.simps) simp
  qed
qed

lemma bits_ge: "0 < n \<Longrightarrow> 2 ^ (bits n - 1) \<le> n"
proof (induction n rule: bits.induct)
  case (1 n)
  show ?case
  proof (cases "n div 2 \<le> 0")
    case True
    with "1.prems" have "n = 1" by linarith
    then show ?thesis by (simp add: bits.simps)
  next
    case False
    with "1.prems" have "2 ^ (bits (n div 2) - 1) \<le> n div 2" by (intro "1.IH") simp_all
    then have "2 * 2 ^ (bits (n div 2) - 1) \<le> n" by linarith
    moreover have "bits (n div 2) \<noteq> 0" using False by (subst bits.simps) simp
    then have "(2::int) * 2 ^ (bits (n div 2) - 1) = 2 ^ bits (n div 2)"
      by (cases "bits (n div 2)") simp_all
    ultimately show ?thesis using "1.prems" by (subst bits.simps) simp
  qed
qed

lemma bits_eqI: "2 ^ b \<le> n \<Longrightarrow> n < 2 ^ Suc b \<Longrightarrow> bits n = Suc b"
proof -
  assume lo: "2 ^ b \<le> n" and hi: "n < 2 ^ Suc b"
  have "(0::int) < 2 ^ b" by simp
  with lo have n: "0 < n" by linarith
  have "(2::int) ^ b < 2 ^ bits n" using lo bits_less [of n] by linarith
  then have "b < bits n" by (simp add: power_strict_increasing_iff)
  moreover have "(2::int) ^ (bits n - 1) < 2 ^ Suc b" using hi bits_ge [OF n] by linarith
  then have "bits n - 1 < Suc b" by (rule power_less_imp_less_exp [rotated]) simp
  ultimately show ?thesis by linarith
qed

lemma bits_mono: "m \<le> n \<Longrightarrow> bits m \<le> bits n"
proof (rule ccontr)
  assume mn: "m \<le> n" and "\<not> bits m \<le> bits n"
  then have b: "bits n \<le> bits m - 1" and "bits m \<noteq> 0"
    by simp_all
  then have m: "0 < m" using bits_0 [of m] by linarith
  have "n < 2 ^ bits n" by (rule bits_less)
  also have "(2::int) ^ bits n \<le> 2 ^ (bits m - 1)" using b by (simp add: power_increasing)
  also have "\<dots> \<le> m" using m by (rule bits_ge)
  finally show False using mn by simp
qed

lemma rhe_of_int: "rhe (of_int n) = n"
  by (simp add: rhe_def)

lemma rhe_bounds: "of_int (rhe z) \<le> z + 1 / 2" "z - 1 / 2 \<le> of_int (rhe z)"
proof -
  have "of_int \<lfloor>z\<rfloor> \<le> z" "z < of_int \<lfloor>z\<rfloor> + 1" by linarith+
  then show "of_int (rhe z) \<le> z + 1 / 2" "z - 1 / 2 \<le> of_int (rhe z)"
    unfolding rhe_def Let_def by (auto split: if_splits simp del: of_int_floor_le) linarith+
qed

lemma rhe_range: "\<lfloor>z\<rfloor> \<le> rhe z" "rhe z \<le> \<lfloor>z\<rfloor> + 1"
  by (auto simp: rhe_def Let_def)

lemma rhe_mono:
  assumes "z \<le> w"
  shows "rhe z \<le> rhe w"
proof (cases "\<lfloor>z\<rfloor> = \<lfloor>w\<rfloor>")
  case True
  with assms show ?thesis by (auto simp: rhe_def Let_def)
next
  case False
  with assms have "\<lfloor>z\<rfloor> < \<lfloor>w\<rfloor>" by (simp add: floor_mono le_neq_trans)
  then have "rhe z \<le> \<lfloor>w\<rfloor>" using rhe_range(2) [of z] by linarith
  then show ?thesis using rhe_range(1) [of w] by linarith
qed


lemma bits_le: "n < 2 ^ w \<Longrightarrow> bits n \<le> w"
proof (cases "n \<le> 0")
  case True
  then show ?thesis by (simp add: bits_0)
next
  case False
  then have pos: "0 < n" by simp
  assume "n < 2 ^ w"
  with bits_ge [OF pos] have "(2::int) ^ (bits n - 1) < 2 ^ w" by linarith
  then have "bits n - 1 < w" by (rule power_less_imp_less_exp [rotated]) simp
  then show ?thesis by linarith
qed

lemma fl_nonneg:
  "0 \<le> x \<Longrightarrow>
   fl x = of_int (rhe (x * 2 ^ 1074 / 2 ^ (bits (\<lfloor>x * 2 ^ 1074\<rfloor>) - 53))) *
     2 ^ (bits (\<lfloor>x * 2 ^ 1074\<rfloor>) - 53) / 2 ^ 1074"
  by (cases "x = 0") (simp_all add: fl_def Let_def rhe_def)

lemma fl_minus: "fl (- x) = - fl x"
  by (simp add: fl_def Let_def sgn_minus)

lemma fl_0: "fl 0 = 0"
  by (simp add: fl_def)

lemma floor_less_power:
  fixes y :: real
  assumes "0 \<le> y"
  shows "\<lfloor>y\<rfloor> < 2 ^ w \<longleftrightarrow> y < 2 ^ w"
proof -
  have "\<lfloor>y\<rfloor> < 2 ^ w \<longleftrightarrow> y < of_int (2 ^ w)"
    by (rule floor_less_iff)
  then show ?thesis by simp
qed

lemma floor_ge_power:
  fixes y :: real
  assumes "0 \<le> y"
  shows "2 ^ w \<le> \<lfloor>y\<rfloor> \<longleftrightarrow> 2 ^ w \<le> y"
  using floor_less_power [OF assms, of w] by linarith

lemma round_grid_mono:
  fixes y y' :: real
  assumes "0 \<le> y" and "y \<le> y'"
  shows "of_int (rhe (y / 2 ^ (bits (\<lfloor>y\<rfloor>) - 53))) * 2 ^ (bits (\<lfloor>y\<rfloor>) - 53) \<le>
    of_int (rhe (y' / 2 ^ (bits (\<lfloor>y'\<rfloor>) - 53))) * (2::real) ^ (bits (\<lfloor>y'\<rfloor>) - 53)"
proof -
  define b where "b = bits (\<lfloor>y\<rfloor>)"
  define b' where "b' = bits (\<lfloor>y'\<rfloor>)"
  define k where "k = b - 53"
  define k' where "k' = b' - 53"
  have y': "0 \<le> y'" using assms by simp
  have bb: "b \<le> b'"
    unfolding b_def b'_def using assms by (intro bits_mono floor_mono)
  then have kk: "k \<le> k'" by (simp add: k_def k'_def)
  have goal: "of_int (rhe (y / 2 ^ k)) * 2 ^ k \<le> of_int (rhe (y' / 2 ^ k')) * (2::real) ^ k'"
  proof (cases "k = k'")
    case True
    have "y / 2 ^ k \<le> y' / 2 ^ k" using assms by (simp add: divide_right_mono)
    then have "rhe (y / 2 ^ k) \<le> rhe (y' / 2 ^ k)" by (rule rhe_mono)
    then show ?thesis unfolding True [symmetric] by simp
  next
    case False
    with kk have lt: "k < k'" by simp
    then have b53: "53 < b'" and b': "b' = k' + 53" and blt: "b < b'"
      by (simp_all add: k_def k'_def)
    define P :: real where "P = 2 ^ (k' + 52)"
    have "\<lfloor>y\<rfloor> < 2 ^ b" unfolding b_def by (rule bits_less)
    also have "(2::int) ^ b \<le> 2 ^ (k' + 52)" using blt b' by (intro power_increasing) simp_all
    finally have "\<lfloor>y\<rfloor> < 2 ^ (k' + 52)" .
    then have yP: "y < P" unfolding P_def using assms(1) by (simp only: floor_less_power)
    have "0 < \<lfloor>y'\<rfloor>" using b53 bits_0 [of "\<lfloor>y'\<rfloor>"] unfolding b'_def by linarith
    then have "2 ^ (b' - 1) \<le> \<lfloor>y'\<rfloor>" unfolding b'_def by (rule bits_ge)
    moreover have "b' - 1 = k' + 52" using b' by simp
    ultimately have "2 ^ (k' + 52) \<le> \<lfloor>y'\<rfloor>" by (simp only:)
    then have Py: "P \<le> y'" unfolding P_def using y' by (simp only: floor_ge_power)
    have "(2::real) ^ (k' + 52) = 2 ^ ((k' + 52 - k) + k)" using lt by simp
    also have "\<dots> = 2 ^ (k' + 52 - k) * 2 ^ k" by (rule power_add)
    finally have Pe: "P = 2 ^ (k' + 52 - k) * 2 ^ k" unfolding P_def .
    then have Pk: "P / 2 ^ k = of_int (2 ^ (k' + 52 - k))" by simp
    have "y / 2 ^ k \<le> P / 2 ^ k" using yP by (simp add: divide_right_mono)
    then have "rhe (y / 2 ^ k) \<le> rhe (P / 2 ^ k)" by (rule rhe_mono)
    then have "rhe (y / 2 ^ k) \<le> 2 ^ (k' + 52 - k)" unfolding Pk rhe_of_int .
    then have "(of_int (rhe (y / 2 ^ k)) :: real) \<le> of_int (2 ^ (k' + 52 - k))" by (simp only: of_int_le_iff)
    then have "of_int (rhe (y / 2 ^ k)) * 2 ^ k \<le> (of_int (2 ^ (k' + 52 - k)) :: real) * 2 ^ k"
      by (simp add: mult_right_mono)
    also have "\<dots> = P" using Pe by simp
    finally have lhs: "of_int (rhe (y / 2 ^ k)) * 2 ^ k \<le> P" .
    have Pe': "P = 2 ^ 52 * 2 ^ k'"
      unfolding P_def by (simp add: power_add)
    then have Pk': "P / 2 ^ k' = of_int (2 ^ 52)" by simp
    have "P / 2 ^ k' \<le> y' / 2 ^ k'" using Py by (simp add: divide_right_mono)
    then have "rhe (P / 2 ^ k') \<le> rhe (y' / 2 ^ k')" by (rule rhe_mono)
    then have "2 ^ 52 \<le> rhe (y' / 2 ^ k')" unfolding Pk' rhe_of_int .
    then have "(of_int (2 ^ 52) :: real) \<le> of_int (rhe (y' / 2 ^ k'))" by (simp only: of_int_le_iff)
    then have "(2::real) ^ 52 \<le> of_int (rhe (y' / 2 ^ k'))" by simp
    then have "(2::real) ^ 52 * 2 ^ k' \<le> of_int (rhe (y' / 2 ^ k')) * 2 ^ k'"
      by (rule mult_right_mono) simp
    then have "P \<le> of_int (rhe (y' / 2 ^ k')) * 2 ^ k'" unfolding Pe' .
    with lhs show ?thesis by linarith
  qed
  then show ?thesis unfolding k_def k'_def b_def b'_def .
qed

lemma fl_mono:
  assumes "0 \<le> x" and "x \<le> y"
  shows "fl x \<le> fl y"
proof -
  have y: "0 \<le> y" using assms by simp
  have "0 \<le> x * 2 ^ 1074" "x * 2 ^ 1074 \<le> y * 2 ^ 1074" using assms by simp_all
  then have "of_int (rhe (x * 2 ^ 1074 / 2 ^ (bits (\<lfloor>x * 2 ^ 1074\<rfloor>) - 53))) *
      2 ^ (bits (\<lfloor>x * 2 ^ 1074\<rfloor>) - 53) \<le>
    of_int (rhe (y * 2 ^ 1074 / 2 ^ (bits (\<lfloor>y * 2 ^ 1074\<rfloor>) - 53))) *
      (2::real) ^ (bits (\<lfloor>y * 2 ^ 1074\<rfloor>) - 53)"
    by (rule round_grid_mono)
  then show ?thesis
    unfolding fl_nonneg [OF assms(1)] fl_nonneg [OF y] by (rule divide_right_mono) simp
qed


lemma fl_normal:
  assumes "2 ^ 52 \<le> x * 2 ^ a" and "x * 2 ^ a < 2 ^ 53" and "a \<le> 1074"
  shows "fl x = of_int (rhe (x * 2 ^ a)) / 2 ^ a"
proof -
  define c where "c = 1074 - a"
  have x: "0 \<le> x"
  proof (rule ccontr)
    assume "\<not> 0 \<le> x"
    then have "x * 2 ^ a < 0" by (simp add: mult_neg_pos)
    with assms(1) show False by (smt (verit) zero_le_power)
  qed
  have p: "(2::real) ^ 1074 = 2 ^ a * 2 ^ c"
    unfolding c_def using assms(3) by (simp add: power_add [symmetric])
  have y: "x * 2 ^ 1074 = (x * 2 ^ a) * 2 ^ c" unfolding p by simp
  have lo: "2 ^ (52 + c) \<le> x * 2 ^ 1074"
    unfolding y power_add using assms(1) by (simp add: mult_right_mono)
  have hi: "x * 2 ^ 1074 < 2 ^ Suc (52 + c)"
  proof -
    have "(x * 2 ^ a) * 2 ^ c < 2 ^ 53 * 2 ^ c" using assms(2) by (simp add: mult_strict_right_mono)
    also have "(2::real) ^ 53 * 2 ^ c = 2 ^ Suc (52 + c)" by (simp add: power_add)
    finally show ?thesis unfolding y .
  qed
  have y0: "0 \<le> x * 2 ^ 1074" using x by simp
  have "bits (\<lfloor>x * 2 ^ 1074\<rfloor>) = Suc (52 + c)"
    using lo hi by (intro bits_eqI) (simp_all only: floor_ge_power [OF y0] floor_less_power [OF y0])
  then have k: "bits (\<lfloor>x * 2 ^ 1074\<rfloor>) - 53 = c" by simp
  have "fl x = of_int (rhe (x * 2 ^ 1074 / 2 ^ c)) * 2 ^ c / 2 ^ 1074"
    unfolding fl_nonneg [OF x] k ..
  also have "x * 2 ^ 1074 / 2 ^ c = x * 2 ^ a" unfolding y by simp
  also have "of_int (rhe (x * 2 ^ a)) * 2 ^ c / 2 ^ 1074 = of_int (rhe (x * 2 ^ a)) / (2::real) ^ a"
    unfolding p by simp
  finally show ?thesis .
qed

lemma fl_fixed_nonneg:
  assumes "0 \<le> m" and "m < 2 ^ 53" and "a \<le> 1074"
  shows "fl (of_int m / 2 ^ a) = of_int m / 2 ^ a"
proof -
  define c where "c = 1074 - a"
  define k where "k = bits (m * 2 ^ c) - 53"
  have p: "(2::real) ^ 1074 = 2 ^ a * 2 ^ c"
    unfolding c_def using assms(3) by (simp add: power_add [symmetric])
  have y: "of_int m / 2 ^ a * 2 ^ 1074 = (of_int (m * 2 ^ c) :: real)" unfolding p by simp
  have "m * 2 ^ c < 2 ^ 53 * 2 ^ c" using assms(2) by simp
  then have "m * 2 ^ c < 2 ^ (53 + c)" by (simp add: power_add)
  then have "bits (m * 2 ^ c) \<le> 53 + c" by (rule bits_le)
  then have kc: "k \<le> c" by (simp add: k_def)
  then have "(2::real) ^ c = 2 ^ (c - k) * 2 ^ k" by (simp add: power_add [symmetric])
  then have "of_int (m * 2 ^ c) / 2 ^ k = (of_int (m * 2 ^ (c - k)) :: real)" by simp
  then have r: "rhe (of_int (m * 2 ^ c) / 2 ^ k) = m * 2 ^ (c - k)"
    by (simp only: rhe_of_int)
  have x: "0 \<le> real_of_int m / 2 ^ a" using assms(1) by simp
  have "fl (of_int m / 2 ^ a) = of_int (m * 2 ^ (c - k)) * 2 ^ k / 2 ^ 1074"
    unfolding fl_nonneg [OF x] y floor_of_int k_def [symmetric] r ..
  also have "(of_int (m * 2 ^ (c - k)) :: real) * 2 ^ k = of_int m * 2 ^ c"
    using kc by (simp add: power_add [symmetric])
  also have "of_int m * 2 ^ c / 2 ^ 1074 = of_int m / (2::real) ^ a" unfolding p by simp
  finally show ?thesis .
qed

lemma fl_fixed:
  assumes "\<bar>m\<bar> < 2 ^ 53" and "a \<le> 1074"
  shows "fl (of_int m / 2 ^ a) = of_int m / 2 ^ a"
proof (cases "0 \<le> m")
  case True
  with assms show ?thesis by (intro fl_fixed_nonneg) simp_all
next
  case False
  with assms have "fl (of_int (- m) / 2 ^ a) = of_int (- m) / 2 ^ a"
    by (intro fl_fixed_nonneg) simp_all
  then show ?thesis using fl_minus [of "of_int m / 2 ^ a"] by simp
qed

lemma fl_of_int: "\<bar>m\<bar> < 2 ^ 53 \<Longrightarrow> fl (of_int m) = of_int m"
  using fl_fixed [of m 0] by simp

lemma fl_25: "fl 25 = 25" and fl_30: "fl 30 = 30" and fl_1: "fl 1 = 1"
  using fl_of_int [of 25] fl_of_int [of 30] fl_of_int [of 1] by simp_all

lemma fl_2_5: "fl (2 / 5) = 3602879701896397 / 2 ^ 53"
  using fl_normal [of "2 / 5" 54] by (simp add: rhe_def)

lemma fl_1_2: "fl (1 / 2) = 1 / 2"
  using fl_fixed [of 1 1] by simp

lemma ex_04: "js_round (fl (25 * fl (2 / 5))) = 10"
  unfolding fl_2_5 using fl_normal [of "25 * (3602879701896397 / 2 ^ 53)" 49]
  by (simp add: rhe_def js_round_def)

lemma fl_nonneg_ge: "0 \<le> x \<Longrightarrow> 0 \<le> fl x"
  using fl_mono [of 0 x] by (simp add: fl_0)

lemma fl_le_1: "0 \<le> x \<Longrightarrow> x \<le> 1 \<Longrightarrow> fl x \<le> 1"
  using fl_mono [of x 1] by (simp add: fl_1)

lemma fl_idem_nonneg:
  assumes "0 \<le> x" and "x < 2 ^ 52"
  shows "fl (fl x) = fl x"
proof -
  define y where "y = x * 2 ^ 1074"
  define b where "b = bits \<lfloor>y\<rfloor>"
  define k where "k = b - 53"
  define m where "m = rhe (y / 2 ^ k)"
  have y0: "0 \<le> y" using assms(1) by (simp add: y_def)
  have "x * 2 ^ 1074 < 2 ^ 52 * (2::real) ^ 1074"
    using assms(2) by (rule mult_strict_right_mono) simp
  also have "(2::real) ^ 52 * 2 ^ 1074 = 2 ^ 1126" by (simp add: power_add [symmetric])
  finally have "y < 2 ^ 1126" unfolding y_def .
  then have "\<lfloor>y\<rfloor> < 2 ^ 1126" by (simp only: floor_less_power [OF y0])
  then have "b \<le> 1126" unfolding b_def by (rule bits_le)
  then have k: "k \<le> 1073" by (simp add: k_def)
  have "\<lfloor>y\<rfloor> < 2 ^ b" unfolding b_def by (rule bits_less)
  then have yb: "y < 2 ^ b" by (simp only: floor_less_power [OF y0])
  have "(2::real) ^ b \<le> 2 ^ (53 + k)" unfolding k_def by (intro power_increasing) simp_all
  also have "\<dots> = 2 ^ 53 * 2 ^ k" by (rule power_add)
  finally have "y < 2 ^ 53 * 2 ^ k" using yb by linarith
  then have "y / 2 ^ k < 2 ^ 53" by (simp add: field_simps)
  then have "y / 2 ^ k \<le> of_int (2 ^ 53)" by simp
  then have "m \<le> rhe (of_int (2 ^ 53))" unfolding m_def by (rule rhe_mono)
  then have hi: "m \<le> 2 ^ 53" by (simp only: rhe_of_int)
  have "of_int 0 \<le> y / 2 ^ k" using y0 by simp
  then have "rhe (of_int 0) \<le> m" unfolding m_def by (rule rhe_mono)
  then have lo: "0 \<le> m" by (simp only: rhe_of_int)
  have v: "fl x = of_int m * 2 ^ k / 2 ^ 1074"
    unfolding fl_nonneg [OF assms(1)] m_def k_def b_def y_def ..
  show ?thesis
  proof (cases "m = 2 ^ 53")
    case False
    with hi have m: "\<bar>m\<bar> < 2 ^ 53" using lo by simp
    have p: "(2::real) ^ 1074 = 2 ^ k * 2 ^ (1074 - k)"
      using k by (simp add: power_add [symmetric])
    have "fl x = of_int m / 2 ^ (1074 - k)" unfolding v p by simp
    moreover have "fl (of_int m / 2 ^ (1074 - k)) = of_int m / 2 ^ (1074 - k)"
      using m by (rule fl_fixed) simp
    ultimately show ?thesis by simp
  next
    case True
    have "(2::real) ^ 1074 = 2 ^ (1 + k + (1073 - k))"
      using k by simp
    also have "\<dots> = 2 * 2 ^ k * 2 ^ (1073 - k)"
      by (simp only: power_add power_one_right)
    finally have p: "(2::real) ^ 1074 = 2 * 2 ^ k * 2 ^ (1073 - k)" .
    have "fl x = of_int (2 ^ 52) / 2 ^ (1073 - k)" unfolding v True p by simp
    moreover have "fl (of_int (2 ^ 52) / 2 ^ (1073 - k)) = of_int (2 ^ 52) / 2 ^ (1073 - k)"
      by (rule fl_fixed) simp_all
    ultimately show ?thesis by simp
  qed
qed

lemma fl_idem: "\<bar>x\<bar> < 2 ^ 52 \<Longrightarrow> fl (fl x) = fl x"
proof (cases "0 \<le> x")
  case True
  assume "\<bar>x\<bar> < 2 ^ 52"
  with True show ?thesis by (intro fl_idem_nonneg) simp_all
next
  case False
  assume "\<bar>x\<bar> < 2 ^ 52"
  with False have "fl (fl (- x)) = fl (- x)" by (intro fl_idem_nonneg) simp_all
  then show ?thesis by (simp add: fl_minus)
qed

section \<open>The percent shown during a run\<close>

lemma js_round_of_int: "js_round (of_int k) = k"
  by (simp add: js_round_def)

lemma js_round_mono: "x \<le> y \<Longrightarrow> js_round x \<le> js_round y"
  by (simp add: js_round_def floor_mono)

lemma ocr_percent_mono:
  assumes "0 \<le> f" and "f \<le> g"
  shows "js_round (fl (fl f * 25)) \<le> js_round (fl (fl g * 25))"
proof -
  have "0 \<le> fl f" using assms(1) by (rule fl_nonneg_ge)
  moreover have "fl f \<le> fl g" using assms by (rule fl_mono)
  ultimately have "0 \<le> fl f * 25" "fl f * 25 \<le> fl g * 25" by simp_all
  then have "fl (fl f * 25) \<le> fl (fl g * 25)" by (rule fl_mono)
  then show ?thesis by (rule js_round_mono)
qed

lemma render_percent_mono:
  assumes "0 \<le> f" and "f \<le> g"
  shows "js_round (fl (30 * fl f)) \<le> js_round (fl (30 * fl g))"
proof -
  have "0 \<le> fl f" using assms(1) by (rule fl_nonneg_ge)
  moreover have "fl f \<le> fl g" using assms by (rule fl_mono)
  ultimately have "0 \<le> 30 * fl f" "30 * fl f \<le> 30 * fl g" by simp_all
  then have "fl (30 * fl f) \<le> fl (30 * fl g)" by (rule fl_mono)
  then show ?thesis by (rule js_round_mono)
qed

lemma ocr_percent_range:
  assumes "0 \<le> f" and "f \<le> 1"
  shows "0 \<le> js_round (fl (fl f * 25)) \<and> js_round (fl (fl f * 25)) \<le> 25"
proof
  have "js_round (fl (fl 0 * 25)) \<le> js_round (fl (fl f * 25))"
    using assms(1) by (intro ocr_percent_mono) simp_all
  then show "0 \<le> js_round (fl (fl f * 25))"
    by (simp add: fl_0 js_round_def)
  have "js_round (fl (fl f * 25)) \<le> js_round (fl (fl 1 * 25))"
    using assms by (rule ocr_percent_mono)
  then show "js_round (fl (fl f * 25)) \<le> 25"
    by (simp add: fl_1 fl_25 js_round_def)
qed

lemma render_percent_range:
  assumes "0 \<le> f" and "f \<le> 1"
  shows "0 \<le> js_round (fl (30 * fl f)) \<and> js_round (fl (30 * fl f)) \<le> 30"
proof
  have "js_round (fl (30 * fl 0)) \<le> js_round (fl (30 * fl f))"
    using assms(1) by (intro render_percent_mono) simp_all
  then show "0 \<le> js_round (fl (30 * fl f))"
    by (simp add: fl_0 js_round_def)
  have "js_round (fl (30 * fl f)) \<le> js_round (fl (30 * fl 1))"
    using assms by (rule render_percent_mono)
  then show "js_round (fl (30 * fl f)) \<le> 30"
    by (simp add: fl_1 fl_30 js_round_def)
qed

lemma states_after_append:
  "states_after s (fs @ gs) = states_after s fs @ states_after (last (s # states_after s fs)) gs"
  by (induction fs arbitrary: s) simp_all

lemma map_agentStep_ocr:
  "map agentStep (states_after s (map ocr_onProgress fs)) = map (\<lambda>f. js_round (fl (fl f * 25))) fs"
  by (induction fs arbitrary: s) (simp_all add: ocr_onProgress_def)

lemma map_agentStep_render:
  "map agentStep (states_after s (map render_onProgress fs)) =
     map (\<lambda>f. 70 + js_round (fl (30 * fl f))) fs"
  by (induction fs arbitrary: s) (simp_all add: render_onProgress_def)

lemma runAgent_percents:
  "images s \<noteq> [] \<Longrightarrow>
   map agentStep (fst (runAgent s (fs, out))) =
     0 # map (\<lambda>f. js_round (fl (fl f * 25))) fs @
     (case out of Resolved r \<Rightarrow> [50, 65] | Rejected e \<Rightarrow> [])"
  by (simp add: runAgent_def Let_def states_after_append map_agentStep_ocr
      runAgent_start_def runAgent_built_def runAgent_planned_def split: settled.split)

lemma renderVideo_percents:
  "images s \<noteq> [] \<Longrightarrow> subtitles s \<noteq> [] \<Longrightarrow>
   map agentStep (fst (renderVideo s (fs, out))) =
     70 # map (\<lambda>f. 70 + js_round (fl (30 * fl f))) fs @
     (case out of Resolved r \<Rightarrow> [100] | Rejected e \<Rightarrow> [])"
  by (simp add: renderVideo_def Let_def states_after_append map_agentStep_render
      renderVideo_start_def renderVideo_done_def split: settled.split)

lemma runAgent_skipped: "images s = [] \<Longrightarrow> fst (runAgent s call) = []"
  by (simp add: runAgent_def)

lemma renderVideo_skipped: "images s = [] \<or> subtitles s = [] \<Longrightarrow> fst (renderVideo s call) = []"
  by (auto simp: renderVideo_def)

lemma sorted_ocr_percents:
  "sorted fs \<Longrightarrow> \<forall>f \<in> set fs. 0 \<le> f \<Longrightarrow> sorted (map (\<lambda>f. js_round (fl (fl f * 25))) fs)"
proof (induction fs)
  case Nil
  show ?case by simp
next
  case (Cons a fs)
  have "js_round (fl (fl a * 25)) \<le> js_round (fl (fl g * 25))" if "g \<in> set fs" for g
    using ocr_percent_mono [of a g] Cons.prems that by simp
  with Cons show ?case by simp
qed

lemma sorted_render_percents:
  "sorted fs \<Longrightarrow> \<forall>f \<in> set fs. 0 \<le> f \<Longrightarrow>
   sorted (map (\<lambda>f. 70 + js_round (fl (30 * fl f))) fs)"
proof (induction fs)
  case Nil
  show ?case by simp
next
  case (Cons a fs)
  have "js_round (fl (30 * fl a)) \<le> js_round (fl (30 * fl g))" if "g \<in> set fs" for g
    using render_percent_mono [of a g] Cons.prems that by simp
  with Cons show ?case by simp
qed

lemma runAgent_percent_bounds:
  assumes "\<forall>f \<in> set fs. 0 \<le> f \<and> f \<le> 1"
  shows "\<forall>p \<in> set (map agentStep (fst (runAgent s (fs, out)))). 0 \<le> p \<and> p \<le> 65"
proof (cases "images s = []")
  case True
  then show ?thesis by (simp add: runAgent_skipped)
next
  case False
  have "\<forall>p \<in> set (map (\<lambda>f. js_round (fl (fl f * 25))) fs). 0 \<le> p \<and> p \<le> 65"
    using assms ocr_percent_range by fastforce
  then show ?thesis
    unfolding runAgent_percents [OF False] by (cases out) auto
qed

lemma renderVideo_percent_bounds:
  assumes "\<forall>f \<in> set fs. 0 \<le> f \<and> f \<le> 1"
  shows "\<forall>p \<in> set (map agentStep (fst (renderVideo s (fs, out)))). 70 \<le> p \<and> p \<le> 100"
proof (cases "images s = [] \<or> subtitles s = []")
  case True
  then show ?thesis by (simp add: renderVideo_skipped)
next
  case False
  then have i: "images s \<noteq> []" and c: "subtitles s \<noteq> []" by simp_all
  have "\<forall>p \<in> set (map (\<lambda>f. 70 + js_round (fl (30 * fl f))) fs). 70 \<le> p \<and> p \<le> 100"
    using assms render_percent_range by fastforce
  then show ?thesis
    unfolding renderVideo_percents [OF i c] by (cases out) auto
qed

lemma run_percents_sorted:
  assumes "images s \<noteq> []" and "images s' \<noteq> []" and "subtitles s' \<noteq> []"
    and "sorted fs" and "\<forall>f \<in> set fs. 0 \<le> f \<and> f \<le> 1"
    and "sorted gs" and "\<forall>g \<in> set gs. 0 \<le> g \<and> g \<le> 1"
  shows "sorted (map agentStep (fst (runAgent s (fs, out)) @ fst (renderVideo s' (gs, out'))))"
proof -
  let ?A = "map (\<lambda>f. js_round (fl (fl f * 25))) fs"
  let ?B = "map (\<lambda>g. 70 + js_round (fl (30 * fl g))) gs"
  let ?a = "case out of Resolved r \<Rightarrow> [50, 65 :: int] | Rejected e \<Rightarrow> []"
  let ?b = "case out' of Resolved r \<Rightarrow> [100 :: int] | Rejected e \<Rightarrow> []"
  have eq: "map agentStep (fst (runAgent s (fs, out)) @ fst (renderVideo s' (gs, out'))) =
      (0 # ?A @ ?a) @ (70 # ?B @ ?b)"
    using assms(1-3) by (simp add: runAgent_percents renderVideo_percents)
  have sA: "sorted ?A" using assms(4,5) by (intro sorted_ocr_percents) simp_all
  have sB: "sorted ?B" using assms(6,7) by (intro sorted_render_percents) simp_all
  have bA: "\<forall>p \<in> set ?A. 0 \<le> p \<and> p \<le> 25"
    using assms(5) ocr_percent_range by fastforce
  have bB: "\<forall>p \<in> set ?B. 70 \<le> p \<and> p \<le> 100"
    using assms(7) render_percent_range by fastforce
  have ba: "\<forall>p \<in> set ?a. 50 \<le> p \<and> p \<le> 65" and sa: "sorted ?a"
    by (cases out; simp)+
  have bb: "\<forall>p \<in> set ?b. p = 100" and sb: "sorted ?b"
    by (cases out'; simp)+
  have "sorted ((0 # ?A @ ?a) @ (70 # ?B @ ?b))"
    using sA sB sa sb bA bB ba bb
    by (simp only: sorted_append sorted_simps set_append set_simps) fastforce
  then show ?thesis by (simp only: eq)
qed

lemma apply_update_percent:
  assumes "0 \<le> agentStep s \<and> agentStep s \<le> 100"
    and "\<forall>p. u = OcrProgress p \<or> u = RenderProgress p \<longrightarrow> 0 \<le> p \<and> p \<le> 1"
  shows "0 \<le> agentStep (apply_update u s) \<and> agentStep (apply_update u s) \<le> 100"
proof (cases u)
  case (OcrProgress p)
  with assms(2) have "0 \<le> p" "p \<le> 1" by simp_all
  then show ?thesis
    using ocr_percent_range [of p] by (simp add: OcrProgress ocr_onProgress_def)
next
  case (RenderProgress p)
  with assms(2) have "0 \<le> p" "p \<le> 1" by simp_all
  then show ?thesis
    using render_percent_range [of p] by (simp add: RenderProgress render_onProgress_def)
qed (use assms(1) in \<open>simp_all add: onFilesSelected_def reset_def runAgent_start_def
      runAgent_built_def runAgent_planned_def renderVideo_start_def renderVideo_done_def
      updateSubtitleText_def onDurationChange_def updateSubtitleDuration_def\<close>)

lemma apply_updates_percent:
  assumes "0 \<le> agentStep s \<and> agentStep s \<le> 100"
    and "\<forall>p. OcrProgress p \<in> set us \<or> RenderProgress p \<in> set us \<longrightarrow> 0 \<le> p \<and> p \<le> 1"
  shows "0 \<le> agentStep (apply_updates us s) \<and> agentStep (apply_updates us s) \<le> 100"
  using assms unfolding apply_updates_def
proof (induction us arbitrary: s)
  case Nil
  then show ?case by simp
next
  case (Cons u us)
  have "0 \<le> agentStep (apply_update u s) \<and> agentStep (apply_update u s) \<le> 100"
    using Cons.prems by (intro apply_update_percent) auto
  moreover have "\<forall>p. OcrProgress p \<in> set us \<or> RenderProgress p \<in> set us \<longrightarrow> 0 \<le> p \<and> p \<le> 1"
    using Cons.prems(2) by auto
  ultimately show ?case
    using Cons.IH [of "apply_update u s"] by simp
qed

lemma fl_58: "fl (29 / 50) = 5224175567749775 / 2 ^ 53"
  using fl_normal [of "29 / 50" 53] by (simp add: rhe_def)

lemma fl_3_10: "fl (3 / 10) = 5404319552844595 / 2 ^ 54"
  using fl_normal [of "3 / 10" 54] by (simp add: rhe_def)

lemma fl_35: "fl (7 / 20) = 3152519739159347 / 2 ^ 53"
  using fl_normal [of "7 / 20" 54] by (simp add: rhe_def)

lemma product_04: "fl (fl (2 / 5) * 25) = 10"
  unfolding fl_2_5 using fl_normal [of "3602879701896397 / 2 ^ 53 * 25" 49]
  by (simp add: rhe_def)

lemma product_058: "fl (fl (29 / 50) * 25) = 8162774324609023 / 2 ^ 49"
  unfolding fl_58 using fl_normal [of "5224175567749775 / 2 ^ 53 * 25" 49]
  by (simp add: rhe_def)

lemma product_03: "fl (fl (3 / 10) * 25) = 15 / 2"
  unfolding fl_3_10 using fl_normal [of "5404319552844595 / 2 ^ 54 * 25" 50]
  by (simp add: rhe_def)

lemma product_035: "fl (30 * fl (7 / 20)) = 21 / 2"
  unfolding fl_35 using fl_normal [of "30 * (3152519739159347 / 2 ^ 53)" 49]
  by (simp add: rhe_def)

lemma product_04_render: "fl (30 * fl (2 / 5)) = 12"
  unfolding fl_2_5 using fl_normal [of "30 * (3602879701896397 / 2 ^ 53)" 49]
  by (simp add: rhe_def)

lemma product_half: "fl (fl (1 / 2) * 25) = 25 / 2" "fl (30 * fl (1 / 2)) = 15"
  unfolding fl_1_2 using fl_fixed [of 25 1] fl_of_int [of 15] by simp_all

lemma percent_examples:
  "js_round (fl (fl (2 / 5) * 25)) = 10" "js_round (fl (fl (29 / 50) * 25)) = 14"
  "js_round (fl (fl (3 / 10) * 25)) = 8" "js_round (fl (30 * fl (7 / 20))) = 11"
  "js_round (fl (fl (1 / 2) * 25)) = 13" "js_round (fl (30 * fl (1 / 2))) = 15"
  "js_round (fl (30 * fl (2 / 5))) = 12"
  unfolding product_04 product_058 product_03 product_035 product_half product_04_render
  by (simp_all add: js_round_def)

lemma product_more:
  "fl (fl (7 / 20) * 25) = 35 / 4" "fl (30 * fl (3 / 10)) = 9"
  "fl (30 * fl (29 / 50)) = 2448832297382707 / 2 ^ 47"
  unfolding fl_35 fl_3_10 fl_58
  using fl_normal [of "3152519739159347 / 2 ^ 53 * 25" 49]
    fl_normal [of "30 * (5404319552844595 / 2 ^ 54)" 49]
    fl_normal [of "30 * (5224175567749775 / 2 ^ 53)" 48]
  by (simp_all add: rhe_def)

lemma percent_more:
  "js_round (fl (fl (7 / 20) * 25)) = 9" "js_round (fl (30 * fl (3 / 10))) = 9"
  "js_round (fl (30 * fl (29 / 50))) = 17"
  unfolding product_more by (simp_all add: js_round_def)

lemma percent_ends: "js_round (fl (fl 0 * 25)) = 0" "js_round (fl (fl 1 * 25)) = 25"
  "js_round (fl (30 * fl 0)) = 0" "js_round (fl (30 * fl 1)) = 30"
  by (simp_all add: fl_0 fl_1 fl_25 fl_30 js_round_def)

lemma run_percents_sorted_all:
  assumes "sorted fs" and "\<forall>f \<in> set fs. 0 \<le> f \<and> f \<le> 1"
    and "sorted gs" and "\<forall>g \<in> set gs. 0 \<le> g \<and> g \<le> 1"
  shows "sorted (map agentStep (fst (runAgent s (fs, out)) @ fst (renderVideo s' (gs, out'))))"
proof (cases "images s = []")
  case True
  note no_run = this
  show ?thesis
  proof (cases "images s' = [] \<or> subtitles s' = []")
    case True
    with no_run show ?thesis by (simp add: runAgent_skipped renderVideo_skipped)
  next
    case False
    then have i: "images s' \<noteq> []" and c: "subtitles s' \<noteq> []" by simp_all
    have "sorted (map (\<lambda>g. 70 + js_round (fl (30 * fl g))) gs)"
      using assms(3,4) by (intro sorted_render_percents) simp_all
    moreover have "\<forall>p \<in> set (map (\<lambda>g. 70 + js_round (fl (30 * fl g))) gs). 70 \<le> p \<and> p \<le> 100"
      using assms(4) render_percent_range by fastforce
    ultimately have "sorted (70 # map (\<lambda>g. 70 + js_round (fl (30 * fl g))) gs @
        (case out' of Resolved r \<Rightarrow> [100] | Rejected e \<Rightarrow> []))"
      by (cases out') (auto simp: sorted_append)
    then show ?thesis
      using no_run by (simp add: runAgent_skipped renderVideo_percents [OF i c])
  qed
next
  case False
  note run = this
  show ?thesis
  proof (cases "images s' = [] \<or> subtitles s' = []")
    case True
    have "sorted (map (\<lambda>f. js_round (fl (fl f * 25))) fs)"
      using assms(1,2) by (intro sorted_ocr_percents) simp_all
    moreover have "\<forall>p \<in> set (map (\<lambda>f. js_round (fl (fl f * 25))) fs). 0 \<le> p \<and> p \<le> 25"
      using assms(2) ocr_percent_range by fastforce
    ultimately have "sorted (0 # map (\<lambda>f. js_round (fl (fl f * 25))) fs @
        (case out of Resolved r \<Rightarrow> [50, 65] | Rejected e \<Rightarrow> []))"
      by (cases out) (auto simp: sorted_append)
    then show ?thesis
      using True by (simp add: renderVideo_skipped runAgent_percents [OF run])
  next
    case False
    then have "images s' \<noteq> []" and "subtitles s' \<noteq> []" by simp_all
    with run assms show ?thesis by (intro run_percents_sorted)
  qed
qed

lemma run_percents_bounds:
  assumes "\<forall>f \<in> set fs. 0 \<le> f \<and> f \<le> 1" and "\<forall>g \<in> set gs. 0 \<le> g \<and> g \<le> 1"
  shows "\<forall>p \<in> set (map agentStep (fst (runAgent s (fs, out)) @ fst (renderVideo s' (gs, out')))).
    0 \<le> p \<and> p \<le> 100"
  using runAgent_percent_bounds [OF assms(1), of s out]
    renderVideo_percent_bounds [OF assms(2), of s' out']
  by (simp only: map_append set_append) fastforce

text \<open>
  Claim C2, as the code has it. The progress callbacks store the value computed from the
  reported fraction and compare it with nothing. When the fractions that each collaborator
  reports before its promise settles are non-decreasing and lie in \<open>[0, 1]\<close>, the
  percents shown during \<open>runAgent\<close> and the \<open>renderVideo\<close> that follows it never
  decrease, however the two promises settle and whether or not an action is skipped by its
  guard. The bounds do not need the order: when the fractions lie in \<open>[0, 1]\<close> these
  percents are within \<open>[0, 100]\<close>; and from a state whose percent is within \<open>[0, 100]\<close>,
  every sequence of state updates in which the reported fractions lie in \<open>[0, 1]\<close>, late
  reports and repeated actions included, leads to a percent within \<open>[0, 100]\<close>.
\<close>

theorem C2_percent_monotone:
  "(sorted fs \<and> (\<forall>f \<in> set fs. 0 \<le> f \<and> f \<le> 1) \<and>
    sorted gs \<and> (\<forall>g \<in> set gs. 0 \<le> g \<and> g \<le> 1) \<longrightarrow>
      sorted (map agentStep (fst (runAgent s (fs, out)) @ fst (renderVideo s' (gs, out'))))) \<and>
   ((\<forall>f \<in> set fs. 0 \<le> f \<and> f \<le> 1) \<and> (\<forall>g \<in> set gs. 0 \<le> g \<and> g \<le> 1) \<longrightarrow>
      (\<forall>p \<in> set (map agentStep (fst (runAgent s (fs, out)) @ fst (renderVideo s' (gs, out')))).
         0 \<le> p \<and> p \<le> 100)) \<and>
   (0 \<le> agentStep st \<and> agentStep st \<le> 100 \<and>
    (\<forall>p. OcrProgress p \<in> set us \<or> RenderProgress p \<in> set us \<longrightarrow> 0 \<le> p \<and> p \<le> 1) \<longrightarrow>
      0 \<le> agentStep (apply_updates us st) \<and> agentStep (apply_updates us st) \<le> 100)"
proof (intro conjI impI)
  assume "sorted fs \<and> (\<forall>f \<in> set fs. 0 \<le> f \<and> f \<le> 1) \<and>
    sorted gs \<and> (\<forall>g \<in> set gs. 0 \<le> g \<and> g \<le> 1)"
  then show "sorted (map agentStep (fst (runAgent s (fs, out)) @ fst (renderVideo s' (gs, out'))))"
    by (intro run_percents_sorted_all) simp_all
next
  assume "(\<forall>f \<in> set fs. 0 \<le> f \<and> f \<le> 1) \<and> (\<forall>g \<in> set gs. 0 \<le> g \<and> g \<le> 1)"
  then show "\<forall>p \<in> set (map agentStep (fst (runAgent s (fs, out)) @ fst (renderVideo s' (gs, out')))).
      0 \<le> p \<and> p \<le> 100"
    by (intro run_percents_bounds) simp_all
next
  assume "0 \<le> agentStep st \<and> agentStep st \<le> 100 \<and>
    (\<forall>p. OcrProgress p \<in> set us \<or> RenderProgress p \<in> set us \<longrightarrow> 0 \<le> p \<and> p \<le> 1)"
  then have "0 \<le> agentStep (apply_updates us st) \<and> agentStep (apply_updates us st) \<le> 100"
    by (intro apply_updates_percent) simp_all
  then show "0 \<le> agentStep (apply_updates us st)" "agentStep (apply_updates us st) \<le> 100"
    by simp_all
qed

theorem C2_percent_monotone_witness:
  "sorted (map agentStep
     (fst (runAgent (with_pages [page ''p1'']) ([0, 0.4, 1], Resolved [ocr ''p1'' ''Hi.''])) @
      fst (renderVideo (with_captions [page ''p1''] [caption ''p1-0'' ''Hi.'' 1500 0])
             ([0.5, 1], Resolved (lit ''blob:v''))))) \<and>
   agentStep (fst (runAgent (with_pages [page ''p1''])
      ([1, 0.4], Resolved [ocr ''p1'' ''Hi.''])) ! 2) \<le> 100 \<and>
   agentStep (apply_updates
      [RunAgentStarted, OcrProgress 0.5, OcrResolved [page ''p1''] [ocr ''p1'' ''Hi.''],
       OcrProgress 1, PlanningDone, RenderStarted, RenderResolved (lit ''blob:v''), RenderStarted]
      (with_pages [page ''p1''])) \<le> 100"
proof (intro conjI)
  let ?s = "with_pages [page ''p1'']"
  let ?s' = "with_captions [page ''p1''] [caption ''p1-0'' ''Hi.'' 1500 0]"
  have "sorted [0, 0.4, 1 :: real] \<and> (\<forall>f \<in> set [0, 0.4, 1 :: real]. 0 \<le> f \<and> f \<le> 1) \<and>
      sorted [0.5, 1 :: real] \<and> (\<forall>g \<in> set [0.5, 1 :: real]. 0 \<le> g \<and> g \<le> 1)"
    by simp
  then show "sorted (map agentStep
     (fst (runAgent ?s ([0, 0.4, 1], Resolved [ocr ''p1'' ''Hi.''])) @
      fst (renderVideo ?s' ([0.5, 1], Resolved (lit ''blob:v'')))))"
    by (rule C2_percent_monotone [THEN conjunct1, THEN mp])
next
  let ?s = "with_pages [page ''p1'']"
  let ?run = "fst (runAgent ?s ([1, 0.4], Resolved [ocr ''p1'' ''Hi.'']))"
  have "(\<forall>f \<in> set [1, 0.4 :: real]. 0 \<le> f \<and> f \<le> 1) \<and> (\<forall>g \<in> set ([] :: real list). 0 \<le> g \<and> g \<le> 1)"
    by simp
  then have b: "\<forall>p \<in> set (map agentStep (?run @ fst (renderVideo ?s ([], Rejected [])))).
      0 \<le> p \<and> p \<le> 100"
    by (rule C2_percent_monotone [THEN conjunct2, THEN conjunct1, THEN mp])
  have "length ?run = 5"
    by (simp add: runAgent_def Let_def with_pages_def)
  then have "?run ! 2 \<in> set ?run" by (intro nth_mem) simp
  then have "agentStep (?run ! 2) \<in> set (map agentStep (?run @ fst (renderVideo ?s ([], Rejected []))))"
    by simp
  with b show "agentStep (?run ! 2) \<le> 100" by blast
next
  let ?s = "with_pages [page ''p1'']"
  let ?us = "[RunAgentStarted, OcrProgress 0.5, OcrResolved [page ''p1''] [ocr ''p1'' ''Hi.''],
       OcrProgress 1, PlanningDone, RenderStarted, RenderResolved (lit ''blob:v''), RenderStarted]"
  have "0 \<le> agentStep ?s \<and> agentStep ?s \<le> 100 \<and>
      (\<forall>p. OcrProgress p \<in> set ?us \<or> RenderProgress p \<in> set ?us \<longrightarrow> 0 \<le> p \<and> p \<le> 1)"
    by (auto simp: with_pages_def initial_state_def)
  then show "agentStep (apply_updates ?us ?s) \<le> 100"
    by (rule C2_percent_monotone [THEN conjunct2, THEN conjunct2, THEN mp, THEN conjunct2])
qed

text \<open>
  Claim C2 as stated fails. The OCR collaborator reports the fraction 1 and then the
  fraction 0.4: the percent goes from 25 back to 10. Or it reports 0.5, resolves, and
  reports 1 late: the percent goes from 50 back to 25.
\<close>

theorem C2_percent_counterexample:
  "map agentStep (fst (runAgent (with_pages [page ''p1''])
      ([1, 0.4], Resolved [ocr ''p1'' ''Hi.'']))) = [0, 25, 10, 50, 65] \<and>
   \<not> sorted (map agentStep (fst (runAgent (with_pages [page ''p1''])
      ([1, 0.4], Resolved [ocr ''p1'' ''Hi.''])))) \<and>
   agentStep (apply_updates
      [RunAgentStarted, OcrProgress 0.5, OcrResolved [page ''p1''] [ocr ''p1'' ''Hi.'']]
      (with_pages [page ''p1''])) = 50 \<and>
   agentStep (apply_updates
      [RunAgentStarted, OcrProgress 0.5, OcrResolved [page ''p1''] [ocr ''p1'' ''Hi.''],
       OcrProgress 1]
      (with_pages [page ''p1''])) = 25"
proof -
  have "images (with_pages [page ''p1'']) \<noteq> []" by (simp add: with_pages_def)
  then have "map agentStep (fst (runAgent (with_pages [page ''p1''])
      ([1, 0.4], Resolved [ocr ''p1'' ''Hi.'']))) = [0, 25, 10, 50, 65]"
    by (simp add: runAgent_percents percent_examples percent_ends)
  moreover have "agentStep (apply_updates
      [RunAgentStarted, OcrProgress 0.5, OcrResolved [page ''p1''] [ocr ''p1'' ''Hi.'']]
      (with_pages [page ''p1''])) = 50"
    by (simp add: apply_updates_def runAgent_built_def)
  moreover have "agentStep (apply_updates
      [RunAgentStarted, OcrProgress 0.5, OcrResolved [page ''p1''] [ocr ''p1'' ''Hi.''],
       OcrProgress 1]
      (with_pages [page ''p1''])) = 25"
    by (simp add: apply_updates_def ocr_onProgress_def percent_ends)
  ultimately show ?thesis by simp
qed

text \<open>
  Claim C8. The percents set by a completed \<open>runAgent\<close> are 0 at the start,
  \<open>round(25 \<times> fraction)\<close> for each fraction reported by the OCR collaborator, then the
  fixed values 50 and 65; those set by a completed \<open>renderVideo\<close> are 70 at the start,
  \<open>70 + round(30 \<times> fraction)\<close> for each reported fraction, then 100. The fraction and
  the product are binary64 values, and \<open>round\<close> is \<open>Math.round\<close>. For fractions in
  \<open>[0, 1]\<close> the percent of the first stage is within \<open>[0, 25]\<close> and that of the last
  within \<open>[70, 100]\<close>. The fractions 0, 0.4, 1 of the first stage give 0, 10, 25; the
  fraction 0.5 of the last gives 85.
\<close>

theorem C8_progress_mapping:
  "(images s \<noteq> [] \<and> (\<forall>f \<in> set fracs. 0 \<le> f \<and> f \<le> 1) \<longrightarrow>
      map agentStep (fst (runAgent s (fracs, Resolved results))) =
        0 # map (\<lambda>f. js_round (fl (fl f * 25))) fracs @ [50, 65] \<and>
      (\<forall>f \<in> set fracs. 0 \<le> js_round (fl (fl f * 25)) \<and> js_round (fl (fl f * 25)) \<le> 25)) \<and>
   (images s \<noteq> [] \<and> subtitles s \<noteq> [] \<and> (\<forall>f \<in> set fracs. 0 \<le> f \<and> f \<le> 1) \<longrightarrow>
      map agentStep (fst (renderVideo s (fracs, Resolved url))) =
        70 # map (\<lambda>f. 70 + js_round (fl (30 * fl f))) fracs @ [100] \<and>
      (\<forall>f \<in> set fracs. 70 \<le> 70 + js_round (fl (30 * fl f)) \<and>
         70 + js_round (fl (30 * fl f)) \<le> 100)) \<and>
   map (\<lambda>f. js_round (fl (fl f * 25))) [0, 0.4, 1.0] = [0, 10, 25] \<and>
   70 + js_round (fl (30 * fl 0.5)) = 85"
proof (intro conjI impI)
  assume a: "images s \<noteq> [] \<and> (\<forall>f \<in> set fracs. 0 \<le> f \<and> f \<le> 1)"
  then show "map agentStep (fst (runAgent s (fracs, Resolved results))) =
      0 # map (\<lambda>f. js_round (fl (fl f * 25))) fracs @ [50, 65]"
    by (simp add: runAgent_percents)
  show "\<forall>f \<in> set fracs. 0 \<le> js_round (fl (fl f * 25)) \<and> js_round (fl (fl f * 25)) \<le> 25"
    using a ocr_percent_range by blast
next
  assume a: "images s \<noteq> [] \<and> subtitles s \<noteq> [] \<and> (\<forall>f \<in> set fracs. 0 \<le> f \<and> f \<le> 1)"
  then show "map agentStep (fst (renderVideo s (fracs, Resolved url))) =
      70 # map (\<lambda>f. 70 + js_round (fl (30 * fl f))) fracs @ [100]"
    by (simp add: renderVideo_percents)
  have "\<forall>f \<in> set fracs. 0 \<le> js_round (fl (30 * fl f)) \<and> js_round (fl (30 * fl f)) \<le> 30"
    using a render_percent_range by blast
  then show "\<forall>f \<in> set fracs. 70 \<le> 70 + js_round (fl (30 * fl f)) \<and>
      70 + js_round (fl (30 * fl f)) \<le> 100"
    by simp
next
  show "map (\<lambda>f. js_round (fl (fl f * 25))) [0, 0.4, 1.0] = [0, 10, 25]"
    by (simp add: percent_examples percent_ends)
  show "70 + js_round (fl (30 * fl 0.5)) = 85"
    by (simp add: percent_examples)
qed

theorem C8_progress_mapping_witness:
  "images (with_captions [page ''p1''] [caption ''p1-0'' ''Hi.'' 1500 0]) \<noteq> [] \<and>
   subtitles (with_captions [page ''p1''] [caption ''p1-0'' ''Hi.'' 1500 0]) \<noteq> [] \<and>
   map agentStep (fst (runAgent (with_captions [page ''p1''] [caption ''p1-0'' ''Hi.'' 1500 0])
      ([0.3, 0.35, 0.4, 0.58], Resolved [ocr ''p1'' ''Hi.'']))) = [0, 8, 9, 10, 14, 50, 65] \<and>
   map agentStep (fst (renderVideo (with_captions [page ''p1''] [caption ''p1-0'' ''Hi.'' 1500 0])
      ([0.3, 0.35, 0.4, 0.58], Resolved (lit ''blob:v'')))) = [70, 79, 81, 82, 87, 100]"
proof -
  let ?s = "with_captions [page ''p1''] [caption ''p1-0'' ''Hi.'' 1500 0]"
  note c = C8_progress_mapping [of ?s "[0.3, 0.35, 0.4, 0.58]" "[ocr ''p1'' ''Hi.'']" "lit ''blob:v''"]
  have i: "images ?s \<noteq> []" and u: "subtitles ?s \<noteq> []"
    by (simp_all add: with_captions_def)
  have f: "\<forall>f \<in> set [0.3, 0.35, 0.4, 0.58 :: real]. 0 \<le> f \<and> f \<le> 1"
    by simp
  have "map agentStep (fst (runAgent ?s ([0.3, 0.35, 0.4, 0.58], Resolved [ocr ''p1'' ''Hi.'']))) =
      0 # map (\<lambda>f. js_round (fl (fl f * 25))) [0.3, 0.35, 0.4, 0.58] @ [50, 65]"
    using c [THEN conjunct1] i f by blast
  moreover have "map agentStep (fst (renderVideo ?s ([0.3, 0.35, 0.4, 0.58], Resolved (lit ''blob:v'')))) =
      70 # map (\<lambda>f. 70 + js_round (fl (30 * fl f))) [0.3, 0.35, 0.4, 0.58] @ [100]"
    using c [THEN conjunct2, THEN conjunct1] i u f by blast
  ultimately show ?thesis
    using i u by (simp add: percent_examples percent_more)
qed

section \<open>The duration estimate\<close>

lemma estimateDuration_eq: "estimateDuration s = max 1500 (min 7000 (60 * int (length s)))"
proof -
  have "60 * real (length s) = of_int (60 * int (length s))" by simp
  then have "js_round (60 * real (length s)) = 60 * int (length s)"
    by (simp only: js_round_of_int)
  then show ?thesis by (simp add: estimateDuration_def)
qed

text \<open>
  Claim C7. The estimate of a caption string is \<open>round(60 \<times> length)\<close>, which is
  \<open>60 \<times> length\<close>, clamped to \<open>[1500, 7000]\<close>; it lies in that range and does not
  decrease when the length grows.
\<close>

theorem C7_estimateDuration:
  "estimateDuration s = max 1500 (min 7000 (js_round (60 * real (length s)))) \<and>
   estimateDuration s = max 1500 (min 7000 (60 * int (length s))) \<and>
   1500 \<le> estimateDuration s \<and> estimateDuration s \<le> 7000 \<and>
   (length s \<le> length t \<longrightarrow> estimateDuration s \<le> estimateDuration t)"
proof (intro conjI impI)
  show "estimateDuration s = max 1500 (min 7000 (js_round (60 * real (length s))))"
    by (simp add: estimateDuration_def)
  show "estimateDuration s \<le> estimateDuration t" if "length s \<le> length t"
    using that by (simp add: estimateDuration_eq)
qed (simp_all add: estimateDuration_eq)

theorem C7_estimateDuration_witness:
  "length (replicate 30 (0x61 :: cu)) \<le> length (replicate 40 (0x62 :: cu)) \<and>
   estimateDuration (replicate 30 0x61) = 1800 \<and>
   estimateDuration (replicate 30 0x61) \<le> estimateDuration (replicate 40 0x62)"
  using C7_estimateDuration [of "replicate 30 0x61" "replicate 40 0x62"]
  by (simp add: estimateDuration_eq)

section \<open>Caption edits\<close>

lemma map_if_no_match:
  "\<forall>u \<in> set xs. sub_id u \<noteq> i \<Longrightarrow> map (\<lambda>s. if sub_id s = i then f s else s) xs = xs"
  by (induction xs) simp_all

text \<open>
  Claim C10. \<open>updateSubtitleText\<close> and \<open>updateSubtitleDuration\<close> keep the length and
  the order of the caption list; a caption whose id differs from the given one is
  unchanged; a caption with that id has the named field replaced and its id, page index
  and other field unchanged; when no caption has the id the list is unchanged. Nothing
  but the caption list changes in the state.
\<close>

theorem C10_edit_frame:
  "length (subtitles (updateSubtitleText i t st)) = length (subtitles st) \<and>
   length (subtitles (updateSubtitleDuration i d st)) = length (subtitles st) \<and>
   (\<forall>k < length (subtitles st).
      (sub_id (subtitles st ! k) \<noteq> i \<longrightarrow>
         subtitles (updateSubtitleText i t st) ! k = subtitles st ! k \<and>
         subtitles (updateSubtitleDuration i d st) ! k = subtitles st ! k) \<and>
      (sub_id (subtitles st ! k) = i \<longrightarrow>
         subtitles (updateSubtitleText i t st) ! k = (subtitles st ! k)\<lparr>sub_text := t\<rparr> \<and>
         subtitles (updateSubtitleDuration i d st) ! k = (subtitles st ! k)\<lparr>durationMs := d\<rparr>) \<and>
      sub_id (subtitles (updateSubtitleText i t st) ! k) = sub_id (subtitles st ! k) \<and>
      pageIndex (subtitles (updateSubtitleText i t st) ! k) = pageIndex (subtitles st ! k) \<and>
      durationMs (subtitles (updateSubtitleText i t st) ! k) = durationMs (subtitles st ! k) \<and>
      sub_id (subtitles (updateSubtitleDuration i d st) ! k) = sub_id (subtitles st ! k) \<and>
      pageIndex (subtitles (updateSubtitleDuration i d st) ! k) = pageIndex (subtitles st ! k) \<and>
      sub_text (subtitles (updateSubtitleDuration i d st) ! k) = sub_text (subtitles st ! k)) \<and>
   ((\<forall>u \<in> set (subtitles st). sub_id u \<noteq> i) \<longrightarrow>
      subtitles (updateSubtitleText i t st) = subtitles st \<and>
      subtitles (updateSubtitleDuration i d st) = subtitles st) \<and>
   updateSubtitleText i t st = st\<lparr>subtitles := subtitles (updateSubtitleText i t st)\<rparr> \<and>
   updateSubtitleDuration i d st = st\<lparr>subtitles := subtitles (updateSubtitleDuration i d st)\<rparr>"
  by (simp add: updateSubtitleText_def updateSubtitleDuration_def map_if_no_match)

theorem C10_edit_frame_witness:
  "subtitles (updateSubtitleText (lit ''p2-1'') (lit ''Deux.'')
     (with_captions [page ''p1'', page ''p2'']
        [caption ''p1-0'' ''One.'' 1500 0, caption ''p2-1'' ''Two.'' 1500 1])) =
     [caption ''p1-0'' ''One.'' 1500 0, caption ''p2-1'' ''Deux.'' 1500 1] \<and>
   subtitles (updateSubtitleDuration (lit ''p2-1'') 900
     (with_captions [page ''p1'', page ''p2'']
        [caption ''p1-0'' ''One.'' 1500 0, caption ''p2-1'' ''Two.'' 1500 1])) =
     [caption ''p1-0'' ''One.'' 1500 0, caption ''p2-1'' ''Two.'' 900 1] \<and>
   subtitles (updateSubtitleText (lit ''zz'') (lit ''Deux.'')
     (with_captions [page ''p1'', page ''p2'']
        [caption ''p1-0'' ''One.'' 1500 0, caption ''p2-1'' ''Two.'' 1500 1])) =
     [caption ''p1-0'' ''One.'' 1500 0, caption ''p2-1'' ''Two.'' 1500 1]"
  using C10_edit_frame [of "lit ''p2-1''" "lit ''Deux.''"
      "with_captions [page ''p1'', page ''p2'']
        [caption ''p1-0'' ''One.'' 1500 0, caption ''p2-1'' ''Two.'' 1500 1]" 900]
    C10_edit_frame [of "lit ''zz''" "lit ''Deux.''"
      "with_captions [page ''p1'', page ''p2'']
        [caption ''p1-0'' ''One.'' 1500 0, caption ''p2-1'' ''Two.'' 1500 1]" 900]
  by (simp add: with_captions_def caption_def lit_def
      updateSubtitleText_def updateSubtitleDuration_def)

section \<open>The timeline\<close>


lemma push_chunks_append:
  "push_chunks r k cs subs =
     subs @ map (\<lambda>j. \<lparr>sub_id = imageId r @ lit ''-'' @ toString (int (length subs + j)),
                        sub_text = cs ! j, durationMs = estimateDuration (cs ! j),
                        pageIndex = k\<rparr>) [0..<length cs]"
proof (induction cs arbitrary: subs)
  case Nil
  show ?case by simp
next
  case (Cons c cs)
  have "[0..<length (c # cs)] = 0 # map Suc [0..<length cs]"
    by (simp add: upt_conv_Cons map_Suc_upt del: upt_Suc)
  then show ?case
    by (simp add: Cons.IH comp_def add.assoc add.left_commute del: upt_Suc)
qed

lemma push_chunks_texts:
  "map sub_text (push_chunks r k cs subs) = map sub_text subs @ cs"
  by (simp add: push_chunks_append comp_def map_nth)

lemma push_chunks_pages:
  "map pageIndex (push_chunks r k cs subs) = map pageIndex subs @ replicate (length cs) k"
  by (simp add: push_chunks_append comp_def map_replicate_const)

lemma segment_pages_texts:
  "map sub_text (segment_pages rs k subs) =
     map sub_text subs @ concat (map (\<lambda>r. chunks (ocr_text r)) rs)"
  by (induction rs arbitrary: k subs) (simp_all add: push_chunks_texts)

lemma segment_pages_pages:
  "map pageIndex (segment_pages rs k subs) =
     map pageIndex subs @
     concat (map (\<lambda>j. replicate (length (chunks (ocr_text (rs ! j)))) (k + j)) [0..<length rs])"
proof (induction rs arbitrary: k subs)
  case Nil
  show ?case by simp
next
  case (Cons r rs)
  have "[0..<length (r # rs)] = 0 # map Suc [0..<length rs]"
    by (simp add: upt_conv_Cons map_Suc_upt del: upt_Suc)
  then show ?case
    by (simp add: Cons.IH push_chunks_pages comp_def del: upt_Suc)
qed

lemma segment_pages_empty_iff:
  "segment_pages rs 0 [] = [] \<longleftrightarrow> (\<forall>r \<in> set rs. chunks (ocr_text r) = [])"
proof -
  have "segment_pages rs 0 [] = [] \<longleftrightarrow> map sub_text (segment_pages rs 0 []) = []"
    by simp
  also have "\<dots> \<longleftrightarrow> (\<forall>r \<in> set rs. chunks (ocr_text r) = [])"
    by (simp only: segment_pages_texts) auto
  finally show ?thesis .
qed

lemma push_chunks_segmented:
  assumes "\<forall>i < length subs. segmented_at results subs i"
    and "k < length results" and "r = results ! k" and "set cs \<subseteq> set (chunks (ocr_text r))"
  shows "\<forall>i < length (push_chunks r k cs subs). segmented_at results (push_chunks r k cs subs) i"
proof (intro allI impI)
  fix i assume i: "i < length (push_chunks r k cs subs)"
  show "segmented_at results (push_chunks r k cs subs) i"
  proof (cases "i < length subs")
    case True
    then have "push_chunks r k cs subs ! i = subs ! i"
      by (simp add: push_chunks_append nth_append)
    with assms(1) True show ?thesis by (simp add: segmented_at_def)
  next
    case False
    then obtain j where j: "i = length subs + j" "j < length cs"
      using i by (auto simp: push_chunks_append intro: that [of "i - length subs"])
    then have "push_chunks r k cs subs ! i =
        \<lparr>sub_id = imageId r @ lit ''-'' @ toString (int i), sub_text = cs ! j,
         durationMs = estimateDuration (cs ! j), pageIndex = k\<rparr>"
      by (simp add: push_chunks_append nth_append)
    moreover have "cs ! j \<in> set (chunks (ocr_text r))"
      using assms(4) j(2) by auto
    ultimately show ?thesis
      using assms(2,3) by (simp add: segmented_at_def)
  qed
qed

lemma segment_pages_segmented:
  assumes "\<forall>i < length subs. segmented_at results subs i"
    and "results = pre @ rs" and "k = length pre"
  shows "\<forall>i < length (segment_pages rs k subs). segmented_at results (segment_pages rs k subs) i"
  using assms
proof (induction rs arbitrary: k subs pre)
  case Nil
  then show ?case by simp
next
  case (Cons r rs)
  have "\<forall>i < length (push_chunks r k (chunks (ocr_text r)) subs).
      segmented_at results (push_chunks r k (chunks (ocr_text r)) subs) i"
    using Cons.prems by (intro push_chunks_segmented) simp_all
  moreover have "results = (pre @ [r]) @ rs" "Suc k = length (pre @ [r])"
    using Cons.prems by simp_all
  ultimately show ?case
    using Cons.IH [of "push_chunks r k (chunks (ocr_text r)) subs" "pre @ [r]" "Suc k"]
    by simp
qed

lemma segment_pages_all:
  "\<forall>i < length (segment_pages results 0 []). segmented_at results (segment_pages results 0 []) i"
  using segment_pages_segmented [of "[]" results "[]" results 0] by simp

lemma push_fallback_append:
  "push_fallback imgs k subs =
     subs @ map (\<lambda>(idx, img). \<lparr>sub_id = img_id img @ lit ''-fallback'',
                                  sub_text = lit ''Page '' @ toString (int idx + 1),
                                  durationMs = 2000, pageIndex = idx\<rparr>) (enumerate k imgs)"
  by (induction imgs arbitrary: k subs) simp_all

lemma buildSubtitles_cases:
  "buildSubtitles imgs results =
     (if \<forall>r \<in> set results. chunks (ocr_text r) = []
      then map (\<lambda>(idx, img). \<lparr>sub_id = img_id img @ lit ''-fallback'',
                                 sub_text = lit ''Page '' @ toString (int idx + 1),
                                 durationMs = 2000, pageIndex = idx\<rparr>) (enumerate 0 imgs)
      else segment_pages results 0 [])"
proof (cases "\<forall>r \<in> set results. chunks (ocr_text r) = []")
  case True
  then have "segment_pages results 0 [] = []"
    by (simp only: segment_pages_empty_iff)
  with True show ?thesis
    by (simp add: buildSubtitles_def push_fallback_append)
next
  case False
  then have "segment_pages results 0 [] \<noteq> []"
    using segment_pages_empty_iff [of results] by blast
  with False show ?thesis
    by (auto simp add: buildSubtitles_def Let_def)
qed

lemma chunks_Nil: "chunks [] = []"
  by (simp add: chunks_def js_split_def trim_def)

text \<open>
  Claim C3, as the code has it. When some page yields a chunk, the id of the \<open>i\<close>-th
  caption of the list is the \<open>imageId\<close> of the OCR result of its page, a hyphen, and
  the decimal numeral of \<open>i\<close>, its position in the whole list (\<open>subs.length\<close> at the
  time of the push): the number does not restart on a new page. The id is a function of
  the OCR results alone.
\<close>

theorem C3_caption_id:
  assumes "\<exists>r \<in> set results. chunks (ocr_text r) \<noteq> []"
    and "i < length (buildSubtitles imgs results)"
  shows "pageIndex (buildSubtitles imgs results ! i) < length results \<and>
    sub_id (buildSubtitles imgs results ! i) =
      imageId (results ! pageIndex (buildSubtitles imgs results ! i)) @ lit ''-'' @ toString (int i)"
proof -
  have eq: "buildSubtitles imgs results = segment_pages results 0 []"
    using assms(1) by (auto simp: buildSubtitles_cases)
  with assms(2) have "segmented_at results (segment_pages results 0 []) i"
    using segment_pages_all [of results] by simp
  then show ?thesis
    by (simp add: eq segmented_at_def)
qed

theorem C3_caption_id_witness:
  "sub_id (buildSubtitles [page ''p1'', page ''p2''] [ocr ''p1'' ''A. B.'', ocr ''p2'' ''C.''] ! 2) =
     lit ''p2-2''"
proof -
  have h1: "\<exists>r \<in> set [ocr ''p1'' ''A. B.'', ocr ''p2'' ''C.'']. chunks (ocr_text r) \<noteq> []"
    by code_simp
  have h2: "2 < length (buildSubtitles [page ''p1'', page ''p2''] [ocr ''p1'' ''A. B.'', ocr ''p2'' ''C.''])"
    by code_simp
  have h3: "pageIndex (buildSubtitles [page ''p1'', page ''p2''] [ocr ''p1'' ''A. B.'', ocr ''p2'' ''C.''] ! 2) = 1"
    by code_simp
  have h4: "imageId ([ocr ''p1'' ''A. B.'', ocr ''p2'' ''C.''] ! 1) @ lit ''-'' @ toString (int 2) = lit ''p2-2''"
    by code_simp
  show ?thesis
    using C3_caption_id [OF h1 h2] by (simp only: h3 h4)
qed

text \<open>
  Claim C3 as stated fails: with one chunk on each of two pages, the caption of the second
  page is the first of its page, and its id ends in 1, not in 0.
\<close>

theorem C3_caption_id_counterexample:
  "pageIndex (buildSubtitles [page ''p1'', page ''p2''] [ocr ''p1'' ''A.'', ocr ''p2'' ''B.''] ! 1) = 1 \<and>
   index_within_page (buildSubtitles [page ''p1'', page ''p2''] [ocr ''p1'' ''A.'', ocr ''p2'' ''B.'']) 1 = 0 \<and>
   sub_id (buildSubtitles [page ''p1'', page ''p2''] [ocr ''p1'' ''A.'', ocr ''p2'' ''B.''] ! 1) = lit ''p2-1'' \<and>
   sub_id (buildSubtitles [page ''p1'', page ''p2''] [ocr ''p1'' ''A.'', ocr ''p2'' ''B.''] ! 1) \<noteq>
     imageId ([ocr ''p1'' ''A.'', ocr ''p2'' ''B.''] ! 1) @ lit ''-'' @
     toString (int (index_within_page
       (buildSubtitles [page ''p1'', page ''p2''] [ocr ''p1'' ''A.'', ocr ''p2'' ''B.'']) 1))"
  by code_simp

text \<open>
  Claim C5. When no page yields a chunk, the list has one caption per image, in order:
  the \<open>k\<close>-th has the text \<open>Page k+1\<close>, the duration 2000 and the page index \<open>k\<close>.
  Empty OCR text yields no chunk. The fallback is taken exactly when the segmented list is
  empty; when some page yields a chunk the list is the segmented one, its texts are the
  chunks of the pages in page order, and a page without chunks has no caption.
\<close>

theorem C5_fallback:
  "((\<forall>r \<in> set results. chunks (ocr_text r) = []) \<longrightarrow>
      length (buildSubtitles imgs results) = length imgs \<and>
      (\<forall>k < length imgs.
         buildSubtitles imgs results ! k =
           \<lparr>sub_id = img_id (imgs ! k) @ lit ''-fallback'',
            sub_text = lit ''Page '' @ toString (int k + 1),
            durationMs = 2000, pageIndex = k\<rparr>)) \<and>
   ((\<forall>r \<in> set results. ocr_text r = []) \<longrightarrow> (\<forall>r \<in> set results. chunks (ocr_text r) = [])) \<and>
   (segment_pages results 0 [] = [] \<longleftrightarrow> (\<forall>r \<in> set results. chunks (ocr_text r) = [])) \<and>
   ((\<exists>r \<in> set results. chunks (ocr_text r) \<noteq> []) \<longrightarrow>
      buildSubtitles imgs results = segment_pages results 0 [] \<and>
      map sub_text (buildSubtitles imgs results) = concat (map (\<lambda>r. chunks (ocr_text r)) results) \<and>
      (\<forall>k < length results. chunks (ocr_text (results ! k)) = [] \<longrightarrow>
         (\<forall>u \<in> set (buildSubtitles imgs results). pageIndex u \<noteq> k)))"
proof (intro conjI impI)
  assume e: "\<forall>r \<in> set results. chunks (ocr_text r) = []"
  then show "length (buildSubtitles imgs results) = length imgs"
    by (simp add: buildSubtitles_cases)
  show "\<forall>k < length imgs.
         buildSubtitles imgs results ! k =
           \<lparr>sub_id = img_id (imgs ! k) @ lit ''-fallback'',
            sub_text = lit ''Page '' @ toString (int k + 1),
            durationMs = 2000, pageIndex = k\<rparr>"
    using e by (simp add: buildSubtitles_cases nth_enumerate_eq)
next
  assume "\<forall>r \<in> set results. ocr_text r = []"
  then show "\<forall>r \<in> set results. chunks (ocr_text r) = []"
    by (simp add: chunks_Nil)
next
  show "segment_pages results 0 [] = [] \<longleftrightarrow> (\<forall>r \<in> set results. chunks (ocr_text r) = [])"
    by (rule segment_pages_empty_iff)
next
  assume ne: "\<exists>r \<in> set results. chunks (ocr_text r) \<noteq> []"
  then show eq: "buildSubtitles imgs results = segment_pages results 0 []"
    by (auto simp: buildSubtitles_cases)
  show "map sub_text (buildSubtitles imgs results) = concat (map (\<lambda>r. chunks (ocr_text r)) results)"
    by (simp add: eq segment_pages_texts)
  show "\<forall>k < length results. chunks (ocr_text (results ! k)) = [] \<longrightarrow>
         (\<forall>u \<in> set (buildSubtitles imgs results). pageIndex u \<noteq> k)"
  proof (intro allI impI ballI)
    fix k u
    assume k: "chunks (ocr_text (results ! k)) = []" and "u \<in> set (buildSubtitles imgs results)"
    then obtain i where i: "i < length (segment_pages results 0 [])" "u = segment_pages results 0 [] ! i"
      by (auto simp: eq in_set_conv_nth)
    then have "segmented_at results (segment_pages results 0 []) i"
      using segment_pages_all [of results] by simp
    then have "sub_text u \<in> set (chunks (ocr_text (results ! pageIndex u)))"
      by (simp add: segmented_at_def i(2))
    with k show "pageIndex u \<noteq> k" by auto
  qed
qed

theorem C5_fallback_witness:
  "buildSubtitles [page ''p1'', page ''p2''] [ocr ''p1'' '''', ocr ''p2'' ''''] =
     [caption ''p1-fallback'' ''Page 1'' 2000 0, caption ''p2-fallback'' ''Page 2'' 2000 1] \<and>
   map sub_text (buildSubtitles [page ''a'', page ''b'', page ''c'']
       [ocr ''a'' ''Hello world.'', ocr ''b'' '''', ocr ''c'' ''Line one.\<newline>\<newline>Line two.'']) =
     [lit ''Hello world.'', lit ''Line one.'', lit ''Line two.''] \<and>
   map pageIndex (buildSubtitles [page ''a'', page ''b'', page ''c'']
       [ocr ''a'' ''Hello world.'', ocr ''b'' '''', ocr ''c'' ''Line one.\<newline>\<newline>Line two.'']) =
     [0, 2, 2]"
proof -
  let ?I = "[page ''p1'', page ''p2'']" and ?R = "[ocr ''p1'' '''', ocr ''p2'' '''']"
  let ?J = "[page ''a'', page ''b'', page ''c'']"
  let ?S = "[ocr ''a'' ''Hello world.'', ocr ''b'' '''', ocr ''c'' ''Line one.\<newline>\<newline>Line two.'']"
  have e: "\<forall>r \<in> set ?R. chunks (ocr_text r) = []" by code_simp
  have n: "\<exists>r \<in> set ?S. chunks (ocr_text r) \<noteq> []" by code_simp
  have len: "length (buildSubtitles ?I ?R) = 2"
    and k0: "buildSubtitles ?I ?R ! 0 = caption ''p1-fallback'' ''Page 1'' 2000 0"
    and k1: "buildSubtitles ?I ?R ! 1 = caption ''p2-fallback'' ''Page 2'' 2000 1"
    using C5_fallback [of ?R ?I] e
    by (simp_all add: caption_def page_def lit_def toString_def dec.simps digit_def)
  have a: "buildSubtitles ?I ?R = [buildSubtitles ?I ?R ! 0, buildSubtitles ?I ?R ! 1]"
    using len by (cases "buildSubtitles ?I ?R"; cases "tl (buildSubtitles ?I ?R)"; simp; cases "tl (tl (buildSubtitles ?I ?R))"; auto)
  have t: "concat (map (\<lambda>r. chunks (ocr_text r)) ?S) = [lit ''Hello world.'', lit ''Line one.'', lit ''Line two.'']"
    by code_simp
  have p: "map pageIndex (segment_pages ?S 0 []) = [0, 2, 2]"
    by code_simp
  have s: "buildSubtitles ?J ?S = segment_pages ?S 0 []"
    and t': "map sub_text (buildSubtitles ?J ?S) = concat (map (\<lambda>r. chunks (ocr_text r)) ?S)"
    using C5_fallback [of ?S ?J] n by blast+
  have "buildSubtitles ?I ?R =
      [caption ''p1-fallback'' ''Page 1'' 2000 0, caption ''p2-fallback'' ''Page 2'' 2000 1]"
    using a by (simp only: k0 k1)
  moreover have "map sub_text (buildSubtitles ?J ?S) =
      [lit ''Hello world.'', lit ''Line one.'', lit ''Line two.'']"
    by (simp only: t' t)
  moreover have "map pageIndex (buildSubtitles ?J ?S) = [0, 2, 2]"
    by (simp only: s p)
  ultimately show ?thesis by (intro conjI)
qed

section \<open>Rejection of a collaborator\<close>

lemma ocr_reports_frame:
  "last (s # states_after s (map ocr_onProgress fs)) =
     s\<lparr>agentStep := (if fs = [] then agentStep s else js_round (fl (fl (last fs) * 25)))\<rparr>"
  by (induction fs arbitrary: s) (simp_all add: ocr_onProgress_def)

lemma render_reports_frame:
  "last (s # states_after s (map render_onProgress fs)) =
     s\<lparr>agentStep := (if fs = [] then agentStep s else 70 + js_round (fl (30 * fl (last fs))))\<rparr>"
  by (induction fs arbitrary: s) (simp_all add: render_onProgress_def)

lemma runAgent_rejected:
  "images s \<noteq> [] \<Longrightarrow>
   runAgent s (fs, Rejected e) =
     (states_after s (runAgent_start # map ocr_onProgress fs), Rejected e) \<and>
   final_state s (runAgent s (fs, Rejected e)) =
     s\<lparr>isProcessing := True,
       agentStep := (if fs = [] then 0 else js_round (fl (fl (last fs) * 25))),
       agentLabel := lit ''Analyzing pages with OCR''\<rparr>"
  using ocr_reports_frame [of "runAgent_start s" fs]
  by (simp add: runAgent_def final_state_def Let_def runAgent_start_def)

lemma renderVideo_rejected:
  "images s \<noteq> [] \<Longrightarrow> subtitles s \<noteq> [] \<Longrightarrow>
   renderVideo s (fs, Rejected e) =
     (states_after s (renderVideo_start # map render_onProgress fs), Rejected e) \<and>
   final_state s (renderVideo s (fs, Rejected e)) =
     s\<lparr>isProcessing := True,
       agentLabel := lit ''Rendering animation to video'',
       agentStep := (if fs = [] then 70 else 70 + js_round (fl (30 * fl (last fs))))\<rparr>"
  using render_reports_frame [of "renderVideo_start s" fs]
  by (simp add: renderVideo_def final_state_def Let_def renderVideo_start_def)

text \<open>
  Claim C1, as the code has it. When the OCR call of \<open>runAgent\<close> or the render call of
  \<open>renderVideo\<close> rejects, the promise of the action rejects with the same reason; the
  state is the one of the stage that was running (its label, the percent of the last
  progress report or of the start of the stage), with the OCR results, the captions and
  the video handle untouched; and \<open>isProcessing\<close> is still true: nothing resets it.
\<close>

theorem C1_rejection:
  "(images s \<noteq> [] \<longrightarrow>
      snd (runAgent s (fs, Rejected e)) = Rejected e \<and>
      final_state s (runAgent s (fs, Rejected e)) =
        s\<lparr>isProcessing := True,
          agentStep := (if fs = [] then 0 else js_round (fl (fl (last fs) * 25))),
          agentLabel := lit ''Analyzing pages with OCR''\<rparr> \<and>
      ocrResults (final_state s (runAgent s (fs, Rejected e))) = ocrResults s \<and>
      subtitles (final_state s (runAgent s (fs, Rejected e))) = subtitles s \<and>
      videoUrl (final_state s (runAgent s (fs, Rejected e))) = videoUrl s \<and>
      isProcessing (final_state s (runAgent s (fs, Rejected e)))) \<and>
   (images s \<noteq> [] \<and> subtitles s \<noteq> [] \<longrightarrow>
      snd (renderVideo s (fs, Rejected e)) = Rejected e \<and>
      final_state s (renderVideo s (fs, Rejected e)) =
        s\<lparr>isProcessing := True,
          agentLabel := lit ''Rendering animation to video'',
          agentStep := (if fs = [] then 70 else 70 + js_round (fl (30 * fl (last fs))))\<rparr> \<and>
      ocrResults (final_state s (renderVideo s (fs, Rejected e))) = ocrResults s \<and>
      subtitles (final_state s (renderVideo s (fs, Rejected e))) = subtitles s \<and>
      videoUrl (final_state s (renderVideo s (fs, Rejected e))) = videoUrl s \<and>
      isProcessing (final_state s (renderVideo s (fs, Rejected e))))"
proof (intro conjI impI)
  assume i: "images s \<noteq> []"
  note r = runAgent_rejected [OF i, of fs e]
  show "snd (runAgent s (fs, Rejected e)) = Rejected e"
    by (simp add: r [THEN conjunct1])
  show "final_state s (runAgent s (fs, Rejected e)) =
        s\<lparr>isProcessing := True,
          agentStep := (if fs = [] then 0 else js_round (fl (fl (last fs) * 25))),
          agentLabel := lit ''Analyzing pages with OCR''\<rparr>"
    by (rule r [THEN conjunct2])
  show "ocrResults (final_state s (runAgent s (fs, Rejected e))) = ocrResults s"
    "subtitles (final_state s (runAgent s (fs, Rejected e))) = subtitles s"
    "videoUrl (final_state s (runAgent s (fs, Rejected e))) = videoUrl s"
    "isProcessing (final_state s (runAgent s (fs, Rejected e)))"
    by (simp_all add: r [THEN conjunct2])
next
  assume "images s \<noteq> [] \<and> subtitles s \<noteq> []"
  then have i: "images s \<noteq> []" and c: "subtitles s \<noteq> []" by simp_all
  note r = renderVideo_rejected [OF i c, of fs e]
  show "snd (renderVideo s (fs, Rejected e)) = Rejected e"
    by (simp add: r [THEN conjunct1])
  show "final_state s (renderVideo s (fs, Rejected e)) =
        s\<lparr>isProcessing := True,
          agentLabel := lit ''Rendering animation to video'',
          agentStep := (if fs = [] then 70 else 70 + js_round (fl (30 * fl (last fs))))\<rparr>"
    by (rule r [THEN conjunct2])
  show "ocrResults (final_state s (renderVideo s (fs, Rejected e))) = ocrResults s"
    "subtitles (final_state s (renderVideo s (fs, Rejected e))) = subtitles s"
    "videoUrl (final_state s (renderVideo s (fs, Rejected e))) = videoUrl s"
    "isProcessing (final_state s (renderVideo s (fs, Rejected e)))"
    by (simp_all add: r [THEN conjunct2])
qed

theorem C1_rejection_witness:
  "images (with_captions [page ''p1''] [caption ''p1-0'' ''Hi.'' 1500 0]) \<noteq> [] \<and>
   subtitles (with_captions [page ''p1''] [caption ''p1-0'' ''Hi.'' 1500 0]) \<noteq> [] \<and>
   agentStep (final_state (with_captions [page ''p1''] [caption ''p1-0'' ''Hi.'' 1500 0])
     (runAgent (with_captions [page ''p1''] [caption ''p1-0'' ''Hi.'' 1500 0])
        ([0.2, 0.4], Rejected (lit ''worker failed'')))) = 10 \<and>
   agentStep (final_state (with_captions [page ''p1''] [caption ''p1-0'' ''Hi.'' 1500 0])
     (renderVideo (with_captions [page ''p1''] [caption ''p1-0'' ''Hi.'' 1500 0])
        ([0.2, 0.4], Rejected (lit ''worker failed'')))) = 82 \<and>
   subtitles (final_state (with_captions [page ''p1''] [caption ''p1-0'' ''Hi.'' 1500 0])
     (renderVideo (with_captions [page ''p1''] [caption ''p1-0'' ''Hi.'' 1500 0])
        ([0.2, 0.4], Rejected (lit ''worker failed'')))) = [caption ''p1-0'' ''Hi.'' 1500 0]"
  using C1_rejection [of "with_captions [page ''p1''] [caption ''p1-0'' ''Hi.'' 1500 0]"
      "[0.2, 0.4]" "lit ''worker failed''"]
  by (simp add: with_captions_def percent_examples)

text \<open>
  Claim C1 as stated fails: after a rejected OCR call the busy flag is not false.
\<close>

theorem C1_rejection_counterexample:
  "snd (runAgent (with_pages [page ''p1'']) ([], Rejected (lit ''worker failed''))) =
     Rejected (lit ''worker failed'') \<and>
   isProcessing (final_state (with_pages [page ''p1''])
     (runAgent (with_pages [page ''p1'']) ([], Rejected (lit ''worker failed'')))) \<noteq> False"
  by (simp add: runAgent_def final_state_def Let_def runAgent_start_def with_pages_def)

section \<open>The floor of the durations\<close>


lemma estimateDuration_floor: "1500 \<le> estimateDuration s"
  by (simp add: estimateDuration_def Let_def)

lemma buildSubtitles_floor: "\<forall>u \<in> set (buildSubtitles imgs results). 1500 \<le> durationMs u"
proof (cases "\<forall>r \<in> set results. chunks (ocr_text r) = []")
  case True
  then show ?thesis
    by (auto simp: buildSubtitles_cases)
next
  case False
  then have eq: "buildSubtitles imgs results = segment_pages results 0 []"
    by (auto simp: buildSubtitles_cases)
  show ?thesis
  proof
    fix u assume "u \<in> set (buildSubtitles imgs results)"
    then obtain i where "i < length (segment_pages results 0 [])" "u = segment_pages results 0 [] ! i"
      by (auto simp: eq in_set_conv_nth)
    then have "durationMs u = estimateDuration (sub_text u)"
      using segment_pages_all [of results] by (simp add: segmented_at_def)
    then show "1500 \<le> durationMs u"
      by (simp add: estimateDuration_floor)
  qed
qed

lemma apply_update_floor:
  assumes "\<forall>u \<in> set (subtitles s). 500 \<le> durationMs u"
  shows "\<forall>u \<in> set (subtitles (apply_update upd s)). 500 \<le> durationMs u"
proof (cases upd)
  case (OcrResolved imgs results)
  have "\<forall>u \<in> set (buildSubtitles imgs results). 500 \<le> durationMs u"
    using buildSubtitles_floor [of imgs results] by fastforce
  then show ?thesis
    by (simp add: OcrResolved runAgent_built_def)
next
  case (TextEdited i t)
  with assms show ?thesis by (auto simp: updateSubtitleText_def)
next
  case (DurationEdited i v)
  with assms show ?thesis by (auto simp: onDurationChange_def updateSubtitleDuration_def)
qed (use assms in \<open>simp_all add: onFilesSelected_def reset_def runAgent_start_def
      ocr_onProgress_def runAgent_planned_def renderVideo_start_def render_onProgress_def
      renderVideo_done_def\<close>)

lemma apply_updates_floor:
  "\<forall>u \<in> set (subtitles s). 500 \<le> durationMs u \<Longrightarrow>
   \<forall>u \<in> set (subtitles (apply_updates us s)). 500 \<le> durationMs u"
  unfolding apply_updates_def
proof (induction us arbitrary: s)
  case Nil
  then show ?case by simp
next
  case (Cons a us)
  from Cons.prems have "\<forall>u \<in> set (subtitles (apply_update a s)). 500 \<le> durationMs u"
    by (rule apply_update_floor)
  then show ?case
    using Cons.IH [of "apply_update a s"] by simp
qed


lemma updateSubtitleDuration_matching:
  assumes "u \<in> set (subtitles (updateSubtitleDuration i m st))" and "sub_id u = i"
  shows "durationMs u = m"
proof -
  have "subtitles (updateSubtitleDuration i m st) =
      map (\<lambda>s. if sub_id s = i then s\<lparr>durationMs := m\<rparr> else s) (subtitles st)"
    by (simp add: updateSubtitleDuration_def)
  with assms(1) have "u \<in> (\<lambda>s. if sub_id s = i then s\<lparr>durationMs := m\<rparr> else s) ` set (subtitles st)"
    by (simp only: set_map)
  then obtain s where s: "u = (if sub_id s = i then s\<lparr>durationMs := m\<rparr> else s)"
    by (rule imageE)
  show ?thesis
  proof (cases "sub_id s = i")
    case True
    have "u = s\<lparr>durationMs := m\<rparr>" by (rule trans [OF s if_P [OF True]])
    then show ?thesis by simp
  next
    case False
    have "u = s" by (rule trans [OF s if_not_P [OF False]])
    with False assms(2) show ?thesis by blast
  qed
qed

lemma onDurationChange_matching:
  "u \<in> set (subtitles (onDurationChange i v st)) \<Longrightarrow> sub_id u = i \<Longrightarrow>
   durationMs u = max 500 (or0 (parseInt v))"
  unfolding onDurationChange_def by (rule updateSubtitleDuration_matching)

text \<open>
  Claim C9. Every caption built by the timeline has a duration of at least 1500, hence at
  least 500; after any sequence of state updates from the initial state every caption has
  a duration of at least 500; a duration edit keeps the list and sets the duration of the
  captions with the given id to \<open>max(500, parseInt(value) || 0)\<close>, which is at least
  500. For the input \<open>-50\<close> that value is 500; the non-numeric input \<open>abc\<close> counts
  as 0 and the value is 500 again.
\<close>

theorem C9_duration_floor:
  "(\<forall>u \<in> set (buildSubtitles imgs results). 1500 \<le> durationMs u \<and> 500 \<le> durationMs u) \<and>
   (\<forall>u \<in> set (subtitles (apply_updates us initial_state)). 500 \<le> durationMs u) \<and>
   length (subtitles (onDurationChange i v st)) = length (subtitles st) \<and>
   (\<forall>u \<in> set (subtitles (onDurationChange i v st)).
      sub_id u = i \<longrightarrow> durationMs u = max 500 (or0 (parseInt v)) \<and> 500 \<le> durationMs u) \<and>
   parseInt (lit ''-50'') = Some (- 50) \<and> max 500 (or0 (parseInt (lit ''-50''))) = 500 \<and>
   parseInt (lit ''abc'') = None \<and> or0 (parseInt (lit ''abc'')) = 0 \<and>
   max 500 (or0 (parseInt (lit ''abc''))) = 500"
proof (intro conjI)
  show "\<forall>u \<in> set (buildSubtitles imgs results). 1500 \<le> durationMs u \<and> 500 \<le> durationMs u"
    using buildSubtitles_floor [of imgs results] by fastforce
  show "\<forall>u \<in> set (subtitles (apply_updates us initial_state)). 500 \<le> durationMs u"
    by (rule apply_updates_floor) (simp add: initial_state_def)
  show "length (subtitles (onDurationChange i v st)) = length (subtitles st)"
    by (simp add: onDurationChange_def updateSubtitleDuration_def)
  show "\<forall>u \<in> set (subtitles (onDurationChange i v st)).
      sub_id u = i \<longrightarrow> durationMs u = max 500 (or0 (parseInt v)) \<and> 500 \<le> durationMs u"
  proof (intro ballI impI)
    fix u assume "u \<in> set (subtitles (onDurationChange i v st))" and "sub_id u = i"
    then have "durationMs u = max 500 (or0 (parseInt v))"
      by (rule onDurationChange_matching)
    then show "durationMs u = max 500 (or0 (parseInt v)) \<and> 500 \<le> durationMs u"
      by simp
  qed
  show p1: "parseInt (lit ''-50'') = Some (- 50)"
    by (simp add: parseInt_def lit_def is_ws_def digit_value_def Let_def)
  show "max 500 (or0 (parseInt (lit ''-50''))) = 500"
    unfolding p1 by (simp add: or0_def)
  show p2: "parseInt (lit ''abc'') = None"
    by (simp add: parseInt_def lit_def is_ws_def digit_value_def Let_def)
  show "or0 (parseInt (lit ''abc'')) = 0"
    unfolding p2 by (simp add: or0_def)
  show "max 500 (or0 (parseInt (lit ''abc''))) = 500"
    unfolding p2 by (simp add: or0_def)
qed

theorem C9_duration_floor_witness:
  "map durationMs (subtitles (apply_updates
      [FilesSelected [page ''p1''], RunAgentStarted,
       OcrResolved [page ''p1''] [ocr ''p1'' ''One. Two.''], PlanningDone,
       DurationEdited (lit ''p1-0'') (lit ''-50''),
       DurationEdited (lit ''p1-1'') (lit ''abc'')] initial_state)) = [500, 500] \<and>
   500 \<le> durationMs (subtitles (apply_updates
      [FilesSelected [page ''p1''], RunAgentStarted,
       OcrResolved [page ''p1''] [ocr ''p1'' ''One. Two.''], PlanningDone,
       DurationEdited (lit ''p1-0'') (lit ''-50''),
       DurationEdited (lit ''p1-1'') (lit ''abc'')] initial_state) ! 1)"
proof -
  let ?us = "[FilesSelected [page ''p1''], RunAgentStarted,
       OcrResolved [page ''p1''] [ocr ''p1'' ''One. Two.''], PlanningDone,
       DurationEdited (lit ''p1-0'') (lit ''-50''),
       DurationEdited (lit ''p1-1'') (lit ''abc'')]"
  have m: "map durationMs (subtitles (apply_updates ?us initial_state)) = [500, 500]"
    by code_simp
  then have "length (map durationMs (subtitles (apply_updates ?us initial_state))) = 2"
    by (simp only: list.size)
  then have "1 < length (subtitles (apply_updates ?us initial_state))"
    by (simp only: length_map)
  then have "subtitles (apply_updates ?us initial_state) ! 1 \<in>
      set (subtitles (apply_updates ?us initial_state))"
    by (rule nth_mem)
  moreover have "\<forall>u \<in> set (subtitles (apply_updates ?us initial_state)). 500 \<le> durationMs u"
    using C9_duration_floor [of "[]" "[]" ?us "[]" "[]" initial_state] by (elim conjE)
  ultimately have "500 \<le> durationMs (subtitles (apply_updates ?us initial_state) ! 1)"
    by (rule bspec [rotated])
  with m show ?thesis by (intro conjI)
qed

section \<open>The segmenter\<close>






























section \<open>The subtitle export\<close>

lemma start_time_Cons: "start_time (s # rest) (Suc i) = durationMs s + start_time rest i"
  by (simp add: start_time_def)

lemma start_time_0: "start_time subs 0 = 0"
  by (simp add: start_time_def)

lemma srt_lines_closed:
  "srt_lines subs idx t lines =
     lines @ concat (map (\<lambda>i.
       [toString (int (idx + i) + 1),
        fmt (t + start_time subs i) @ lit '' --> '' @
          fmt (t + start_time subs i + durationMs (subs ! i)),
        sub_text (subs ! i), []]) [0..<length subs])"
proof (induction subs arbitrary: idx t lines)
  case Nil
  show ?case by simp
next
  case (Cons s rest)
  have u: "[0..<length (s # rest)] = 0 # map Suc [0..<length rest]"
    by (simp add: upt_conv_Cons map_Suc_upt del: upt_Suc)
  show ?case
    unfolding u
    by (simp add: Cons.IH Let_def comp_def start_time_Cons start_time_0 ac_simps
        del: upt_Suc)
qed

lemma dec_small: "n < 10 \<Longrightarrow> dec n = [digit n]"
  by (simp add: dec.simps)

lemma dec_two: "10 \<le> n \<Longrightarrow> n < 100 \<Longrightarrow> dec n = [digit (n div 10), digit (n mod 10)]"
  by (subst dec.simps) (simp add: dec_small)

lemma dec_three:
  "100 \<le> n \<Longrightarrow> n < 1000 \<Longrightarrow> dec n = [digit (n div 100), digit (n div 10 mod 10), digit (n mod 10)]"
  by (subst dec.simps) (simp add: dec_two div_mult2_eq [symmetric])

lemma length_dec_ge2: "10 \<le> n \<Longrightarrow> 2 \<le> length (dec n)"
  by (subst dec.simps) (simp, subst dec.simps, simp)

lemma pad2:
  "padStart0 2 (dec n) = (if n < 10 then [digit 0, digit n] else dec n)"
proof (cases "n < 10")
  case True
  then show ?thesis by (simp add: padStart0_def dec_small)
next
  case False
  then have "2 \<le> length (dec n)" by (intro length_dec_ge2) simp
  with False show ?thesis by (simp add: padStart0_def)
qed

lemma pad2_lt100:
  assumes "n < 100"
  shows "padStart0 2 (dec n) = [digit (n div 10), digit (n mod 10)]"
proof (cases "n < 10")
  case True
  then show ?thesis by (simp add: padStart0_def dec_small)
next
  case False
  with assms show ?thesis by (simp add: padStart0_def dec_two)
qed

lemma pad3_lt1000:
  assumes "n < 1000"
  shows "padStart0 3 (dec n) = [digit (n div 100), digit (n div 10 mod 10), digit (n mod 10)]"
proof -
  consider "n < 10" | "10 \<le> n" "n < 100" | "100 \<le> n" by linarith
  then show ?thesis
  proof cases
    case 1
    then show ?thesis by (simp add: padStart0_def dec_small numeral_3_eq_3)
  next
    case 2
    then show ?thesis by (simp add: padStart0_def dec_two numeral_3_eq_3)
  next
    case 3
    with assms show ?thesis by (simp add: padStart0_def dec_three)
  qed
qed

lemma js_rem_nonneg: "0 \<le> a \<Longrightarrow> 0 < k \<Longrightarrow> js_rem a k = a mod k"
  by (cases "a = 0") (simp_all add: js_rem_def)

lemma toString_nonneg: "0 \<le> n \<Longrightarrow> toString n = dec (nat n)"
  by (simp add: toString_def)

lemma mod_mult_div:
  fixes a :: int
  assumes "0 < b" and "0 \<le> c"
  shows "a mod (b * c) div b = a div b mod c"
proof -
  have "a mod (b * c) = a mod b + b * (a div b mod c)"
    using assms by (simp add: zmod_zmult2_eq)
  then have "a mod (b * c) div b = (a mod b + b * (a div b mod c)) div b"
    by (simp only:)
  also have "\<dots> = a div b mod c + a mod b div b"
    using assms by simp
  also have "a mod b div b = 0"
    using assms by (simp add: div_pos_pos_trivial)
  finally show ?thesis by simp
qed

lemma fmt_nonneg:
  assumes "0 \<le> ms"
  shows "fmt ms =
     (if ms div 3600000 < 10 then [digit 0, digit (nat (ms div 3600000))]
      else dec (nat (ms div 3600000))) @ lit '':'' @
     [digit (nat (ms div 60000 mod 60) div 10), digit (nat (ms div 60000 mod 60) mod 10)] @ lit '':'' @
     [digit (nat (ms div 1000 mod 60) div 10), digit (nat (ms div 1000 mod 60) mod 10)] @ lit '','' @
     [digit (nat (ms mod 1000) div 100), digit (nat (ms mod 1000) div 10 mod 10),
      digit (nat (ms mod 1000) mod 10)]"
proof -
  define h where "h = ms div 3600000"
  define m where "m = ms div 60000 mod 60"
  define s where "s = ms div 1000 mod 60"
  define c where "c = ms mod 1000"
  have h0: "0 \<le> h" using assms by (simp add: h_def pos_imp_zdiv_nonneg_iff)
  have m0: "0 \<le> m" "m < 60" and s0: "0 \<le> s" "s < 60" and c0: "0 \<le> c" "c < 1000"
    by (simp_all add: m_def s_def c_def)
  have "js_rem ms 3600000 div 60000 = m"
    unfolding m_def js_rem_nonneg [OF assms, of 3600000, simplified]
    using mod_mult_div [of 60000 60 ms] by simp
  moreover have "js_rem ms 60000 div 1000 = s"
    unfolding s_def js_rem_nonneg [OF assms, of 60000, simplified]
    using mod_mult_div [of 1000 60 ms] by simp
  moreover have "js_rem ms 1000 = c"
    unfolding c_def by (rule js_rem_nonneg [OF assms]) simp
  ultimately have f: "fmt ms = padStart0 2 (toString h) @ lit '':'' @ padStart0 2 (toString m) @
      lit '':'' @ padStart0 2 (toString s) @ lit '','' @ padStart0 3 (toString c)"
    by (simp add: fmt_def Let_def h_def)
  have ph: "padStart0 2 (toString h) = (if h < 10 then [digit 0, digit (nat h)] else dec (nat h))"
    using h0 by (simp add: toString_nonneg pad2) linarith
  have pm: "padStart0 2 (toString m) = [digit (nat m div 10), digit (nat m mod 10)]"
    using m0 by (simp add: toString_nonneg pad2_lt100)
  have ps: "padStart0 2 (toString s) = [digit (nat s div 10), digit (nat s mod 10)]"
    using s0 by (simp add: toString_nonneg pad2_lt100)
  have pc: "padStart0 3 (toString c) =
      [digit (nat c div 100), digit (nat c div 10 mod 10), digit (nat c mod 10)]"
    using c0 by (simp add: toString_nonneg pad3_lt1000)
  show ?thesis
    unfolding f ph pm ps pc unfolding h_def m_def s_def c_def ..
qed

lemma start_time_Suc:
  "i < length subs \<Longrightarrow> start_time subs (Suc i) = start_time subs i + durationMs (subs ! i)"
  by (simp add: start_time_def take_Suc_conv_app_nth)

lemma digit_value_digit:
  assumes "d < 10"
  shows "digit_value (digit d) = d"
proof -
  from assms have "d = 0 \<or> d = 1 \<or> d = 2 \<or> d = 3 \<or> d = 4 \<or> d = 5 \<or> d = 6 \<or> d = 7 \<or> d = 8 \<or> d = 9"
    by arith
  then show ?thesis
    by (elim disjE) (simp_all add: digit_def digit_value_def)
qed

lemma dec_digits: "c \<in> set (dec n) \<Longrightarrow> digit_value c < 10"
proof (induction n arbitrary: c rule: dec.induct)
  case (1 n)
  show ?case
  proof (cases "n < 10")
    case True
    with "1.prems" show ?thesis
      by (simp add: dec_small digit_value_digit)
  next
    case False
    with "1.prems" have "c \<in> set (dec (n div 10)) \<or> c = digit (n mod 10)"
      by (subst (asm) dec.simps) auto
    then show ?thesis
    proof
      assume "c \<in> set (dec (n div 10))"
      with False show ?thesis by (intro "1.IH") simp_all
    next
      assume "c = digit (n mod 10)"
      then show ?thesis by (simp add: digit_value_digit)
    qed
  qed
qed

lemma dec_value: "foldl (\<lambda>a c. a * 10 + digit_value c) 0 (dec n) = n"
proof (induction n rule: dec.induct)
  case (1 n)
  show ?case
  proof (cases "n < 10")
    case True
    then show ?thesis by (simp add: dec_small digit_value_digit)
  next
    case False
    then have "dec n = dec (n div 10) @ [digit (n mod 10)]"
      by (subst dec.simps) simp
    moreover have "foldl (\<lambda>a c. a * 10 + digit_value c) 0 (dec (n div 10)) = n div 10"
      using False by (intro "1.IH") simp
    ultimately show ?thesis
      by (simp add: digit_value_digit)
  qed
qed

lemma dec_nonempty: "dec n \<noteq> []"
  by (subst dec.simps) simp

lemma read_nat_dec: "read_nat (dec n) = Some n"
  by (simp add: read_nat_def dec_nonempty dec_digits dec_value)

lemma read_nat_two: "a < 10 \<Longrightarrow> b < 10 \<Longrightarrow> read_nat [digit a, digit b] = Some (a * 10 + b)"
  by (simp add: read_nat_def digit_value_digit)

lemma read_nat_three:
  "a < 10 \<Longrightarrow> b < 10 \<Longrightarrow> c < 10 \<Longrightarrow> read_nat [digit a, digit b, digit c] = Some ((a * 10 + b) * 10 + c)"
  by (simp add: read_nat_def digit_value_digit)

lemma split_on_notin: "d \<notin> set xs \<Longrightarrow> split_on d xs = [xs]"
  by (induction xs) auto

lemma split_on_append: "d \<notin> set xs \<Longrightarrow> split_on d (xs @ d # ys) = xs # split_on d ys"
  by (induction xs) auto

lemma lit_colon: "lit '':'' = [0x3A]" and lit_comma: "lit '','' = [0x2C]"
  and lit_arrow: "lit '' --> '' = [0x20] @ lit ''-->'' @ [0x20]"
  by (simp_all add: lit_def)

lemma read_stamp_parts:
  assumes "\<forall>x \<in> set hh. digit_value x < 10" and "\<forall>x \<in> set mm. digit_value x < 10"
    and "\<forall>x \<in> set ss. digit_value x < 10" and "\<forall>x \<in> set cc. digit_value x < 10"
    and "read_nat hh = Some a" and "read_nat mm = Some b"
    and "read_nat ss = Some c" and "read_nat cc = Some d"
  shows "read_stamp (hh @ [0x3A] @ mm @ [0x3A] @ ss @ [0x2C] @ cc) =
    Some (int (((a * 60 + b) * 60 + c) * 1000 + d))"
proof -
  have v: "digit_value 0x3A = 36" "digit_value 0x2C = 36"
    by (simp_all add: digit_value_def)
  have n1: "0x3A \<notin> set hh" "0x3A \<notin> set mm" "0x3A \<notin> set ss" "0x3A \<notin> set cc" "0x2C \<notin> set ss"
    using assms(1-4) v by fastforce+
  have "split_on 0x3A (hh @ 0x3A # mm @ 0x3A # ss @ 0x2C # cc) =
      hh # split_on 0x3A (mm @ 0x3A # ss @ 0x2C # cc)"
    using n1(1) by (rule split_on_append)
  also have "split_on 0x3A (mm @ 0x3A # ss @ 0x2C # cc) = mm # split_on 0x3A (ss @ 0x2C # cc)"
    using n1(2) by (rule split_on_append)
  also have "split_on 0x3A (ss @ 0x2C # cc) = [ss @ 0x2C # cc]"
    using n1(3,4) by (intro split_on_notin) simp
  finally have s1: "split_on 0x3A (hh @ [0x3A] @ mm @ [0x3A] @ ss @ [0x2C] @ cc) =
      [hh, mm, ss @ 0x2C # cc]"
    by simp
  have s2: "split_on 0x2C (ss @ 0x2C # cc) = [ss, cc]"
  proof -
    have "0x2C \<notin> set cc" using assms(4) v by fastforce
    then have "split_on 0x2C cc = [cc]" by (rule split_on_notin)
    with split_on_append [OF n1(5), of cc] show ?thesis by simp
  qed
  show ?thesis
    unfolding read_stamp_def s1 by (simp add: s2 assms(5-8))
qed

lemma hms_recompose:
  fixes ms :: int
  shows "((ms div 3600000 * 60 + ms div 60000 mod 60) * 60 + ms div 1000 mod 60) * 1000 +
    ms mod 1000 = ms"
proof -
  have a: "ms div 60000 = ms div 1000 div 60" and b: "ms div 3600000 = ms div 60000 div 60"
    by (simp_all add: zdiv_zmult2_eq)
  have "ms div 3600000 * 60 + ms div 60000 mod 60 = ms div 60000"
    unfolding b by simp
  moreover have "ms div 60000 * 60 + ms div 1000 mod 60 = ms div 1000"
    unfolding a by simp
  ultimately show ?thesis by simp
qed

lemma hms_nat:
  fixes ms :: int
  assumes "0 \<le> ms"
  shows "int (((nat (ms div 3600000) * 60 + nat (ms div 60000 mod 60)) * 60 +
    nat (ms div 1000 mod 60)) * 1000 + nat (ms mod 1000)) = ms"
proof -
  have "0 \<le> ms div 3600000" using assms by (simp add: pos_imp_zdiv_nonneg_iff)
  then have "int (nat (ms div 3600000)) = ms div 3600000" by simp
  moreover have "int (nat (ms div 60000 mod 60)) = ms div 60000 mod 60" by simp
  moreover have "int (nat (ms div 1000 mod 60)) = ms div 1000 mod 60" by simp
  moreover have "int (nat (ms mod 1000)) = ms mod 1000" by simp
  ultimately show ?thesis
    using hms_recompose [of ms] by (simp only: of_nat_add of_nat_mult of_nat_numeral)
qed

lemma read_nat_millis:
  assumes "c < 1000"
  shows "read_nat [digit (c div 100), digit (c div 10 mod 10), digit (c mod 10)] = Some c"
proof -
  have "c div 100 < 10" using assms by simp
  moreover have "(c div 100 * 10 + c div 10 mod 10) * 10 + c mod 10 = c"
  proof -
    have "c div 100 = c div 10 div 10" by (simp add: div_mult2_eq)
    then have "c div 100 * 10 + c div 10 mod 10 = c div 10" by simp
    then show ?thesis by simp
  qed
  ultimately show ?thesis by (simp add: read_nat_three)
qed

lemma digit_digits: "d < 10 \<Longrightarrow> digit_value (digit d) < 10"
  by (simp add: digit_value_digit)

lemma fmt_shape:
  assumes "0 \<le> ms"
  shows "\<exists>hh mm ss cc a b c d.
    fmt ms = hh @ [0x3A] @ mm @ [0x3A] @ ss @ [0x2C] @ cc \<and>
    (\<forall>x \<in> set hh. digit_value x < 10) \<and> (\<forall>x \<in> set mm. digit_value x < 10) \<and>
    (\<forall>x \<in> set ss. digit_value x < 10) \<and> (\<forall>x \<in> set cc. digit_value x < 10) \<and>
    read_nat hh = Some a \<and> read_nat mm = Some b \<and> read_nat ss = Some c \<and>
    read_nat cc = Some d \<and> int (((a * 60 + b) * 60 + c) * 1000 + d) = ms"
proof -
  define h where "h = nat (ms div 3600000)"
  define m where "m = nat (ms div 60000 mod 60)"
  define s where "s = nat (ms div 1000 mod 60)"
  define c where "c = nat (ms mod 1000)"
  define hh where "hh = (if ms div 3600000 < 10 then [digit 0, digit h] else dec h)"
  define mm where "mm = [digit (m div 10), digit (m mod 10)]"
  define ss where "ss = [digit (s div 10), digit (s mod 10)]"
  define cc where "cc = [digit (c div 100), digit (c div 10 mod 10), digit (c mod 10)]"
  have b: "m < 60" "s < 60" "c < 1000"
    by (simp_all add: m_def s_def c_def)
  have "0 \<le> ms div 3600000"
    using assms by (simp add: pos_imp_zdiv_nonneg_iff)
  then have h10: "ms div 3600000 < 10 \<longleftrightarrow> h < 10"
    unfolding h_def by linarith
  have f: "fmt ms = hh @ [0x3A] @ mm @ [0x3A] @ ss @ [0x2C] @ cc"
    unfolding fmt_nonneg [OF assms] hh_def mm_def ss_def cc_def h_def m_def s_def c_def
      lit_colon lit_comma ..
  have dh: "\<forall>x \<in> set hh. digit_value x < 10"
    unfolding hh_def h10 by (auto simp: digit_digits dec_digits)
  have dm: "\<forall>x \<in> set mm. digit_value x < 10" and ds: "\<forall>x \<in> set ss. digit_value x < 10"
    and dc: "\<forall>x \<in> set cc. digit_value x < 10"
    using b by (simp_all add: mm_def ss_def cc_def digit_digits)
  have rh: "read_nat hh = Some h"
    unfolding hh_def h10 by (cases "h < 10") (simp_all add: read_nat_two read_nat_dec)
  have rm: "read_nat mm = Some m" and rs: "read_nat ss = Some s"
    using b by (simp_all add: mm_def ss_def read_nat_two)
  have rc: "read_nat cc = Some c"
    unfolding cc_def using b(3) by (rule read_nat_millis)
  have "int (((h * 60 + m) * 60 + s) * 1000 + c) = ms"
    unfolding h_def m_def s_def c_def using assms by (rule hms_nat)
  with f dh dm ds dc rh rm rs rc show ?thesis by blast
qed

lemma read_stamp_fmt: "0 \<le> ms \<Longrightarrow> read_stamp (fmt ms) = Some ms"
  using fmt_shape [of ms] read_stamp_parts by fastforce

lemma fmt_chars:
  assumes "0 \<le> ms" and "x \<in> set (fmt ms)"
  shows "digit_value x < 10 \<or> x = 0x3A \<or> x = 0x2C"
proof -
  from fmt_shape [OF assms(1)] obtain hh mm ss cc where
    "fmt ms = hh @ [0x3A] @ mm @ [0x3A] @ ss @ [0x2C] @ cc"
    "\<forall>x \<in> set hh. digit_value x < 10" "\<forall>x \<in> set mm. digit_value x < 10"
    "\<forall>x \<in> set ss. digit_value x < 10" "\<forall>x \<in> set cc. digit_value x < 10"
    by blast
  with assms(2) show ?thesis by auto
qed

lemma fmt_nonempty: "0 \<le> ms \<Longrightarrow> fmt ms \<noteq> []"
  using fmt_shape [of ms] by fastforce

lemma split_on_join:
  "ls \<noteq> [] \<Longrightarrow> \<forall>l \<in> set ls. d \<notin> set l \<Longrightarrow> split_on d (join [d] ls) = ls"
proof (induction "[d]" ls rule: join.induct)
  case 1
  then show ?case by simp
next
  case (2 x)
  then show ?case by (simp add: split_on_notin)
next
  case (3 x y ys)
  then have "split_on d (join [d] (y # ys)) = y # ys" by simp
  moreover have "d \<notin> set x" using "3.prems" by simp
  ultimately show ?case
    using split_on_append [of d x "join [d] (y # ys)"] by simp
qed

lemma all_some_map:
  "\<forall>x \<in> set xs. f x = Some (g x) \<Longrightarrow> all_some (map f xs) = Some (map g xs)"
  by (induction xs) simp_all

lemma blocks_of_entries:
  assumes "\<forall>x \<in> set xs. A x \<noteq> [] \<and> B x \<noteq> []"
  shows "blocks_of [] (concat (map (\<lambda>x. [A x, B x, T x, []]) xs)) =
    map (\<lambda>x. A x # B x # (if T x = [] then [] else [T x])) xs"
  using assms by (induction xs) simp_all

lemma read_block_entry:
  assumes "0 \<le> a" and "0 \<le> b"
  shows "read_block (dec n # (fmt a @ lit '' --> '' @ fmt b) # (if t = [] then [] else [t])) =
    Some (a, b, t)"
proof -
  have sp: "digit_value 0x20 = 36" "(0x20 :: cu) \<noteq> 0x3A" "(0x20 :: cu) \<noteq> 0x2C"
    by (simp_all add: digit_value_def)
  have na: "0x20 \<notin> set (fmt a)" and nb: "0x20 \<notin> set (fmt b)"
    using fmt_chars [OF assms(1), of "0x20"] fmt_chars [OF assms(2), of "0x20"] sp by auto
  have arrow: "0x20 \<notin> set (lit ''-->'')" by (simp add: lit_def)
  have "split_on 0x20 (fmt a @ 0x20 # lit ''-->'' @ 0x20 # fmt b) =
      fmt a # split_on 0x20 (lit ''-->'' @ 0x20 # fmt b)"
    using na by (rule split_on_append)
  also have "split_on 0x20 (lit ''-->'' @ 0x20 # fmt b) = lit ''-->'' # split_on 0x20 (fmt b)"
    using arrow by (rule split_on_append)
  also have "split_on 0x20 (fmt b) = [fmt b]"
    using nb by (rule split_on_notin)
  finally have s: "split_on 0x20 (fmt a @ lit '' --> '' @ fmt b) = [fmt a, lit ''-->'', fmt b]"
    by (simp add: lit_arrow)
  have j: "join [LF] (if t = [] then [] else [t]) = t" by simp
  show ?thesis
    unfolding read_block_def list.case s
    by (simp add: read_nat_dec read_stamp_fmt assms j del: join.simps)
qed

lemma no_LF_dec: "LF \<notin> set (dec n)"
proof
  assume "LF \<in> set (dec n)"
  then have "digit_value LF < 10" by (rule dec_digits)
  then show False by (simp add: digit_value_def LF_def)
qed

lemma no_LF_fmt: "0 \<le> ms \<Longrightarrow> LF \<notin> set (fmt ms)"
proof
  assume "0 \<le> ms" and "LF \<in> set (fmt ms)"
  then have "digit_value LF < 10 \<or> LF = 0x3A \<or> LF = 0x2C" by (rule fmt_chars)
  then show False by (simp add: digit_value_def LF_def)
qed

lemma read_srt_entries:
  assumes "\<forall>x \<in> set xs. 0 \<le> A x \<and> 0 \<le> B x \<and> LF \<notin> set (T x)"
  shows "read_srt (join [LF]
      (concat (map (\<lambda>x. [dec (N x), fmt (A x) @ lit '' --> '' @ fmt (B x), T x, []]) xs))) =
    Some (map (\<lambda>x. (A x, B x, T x)) xs)"
proof (cases "xs = []")
  case True
  then show ?thesis by (simp add: read_srt_def)
next
  case False
  let ?ls = "concat (map (\<lambda>x. [dec (N x), fmt (A x) @ lit '' --> '' @ fmt (B x), T x, []]) xs)"
  have ne: "?ls \<noteq> []" using False by (cases xs) simp_all
  have "LF \<notin> set (lit '' --> '')" by (simp add: lit_def LF_def)
  then have "\<forall>l \<in> set ?ls. LF \<notin> set l"
    using assms by (auto simp: no_LF_dec no_LF_fmt)
  with ne have "split_on LF (join [LF] ?ls) = ?ls" by (rule split_on_join)
  moreover have "blocks_of [] ?ls =
      map (\<lambda>x. dec (N x) # (fmt (A x) @ lit '' --> '' @ fmt (B x)) # (if T x = [] then [] else [T x])) xs"
    using assms by (intro blocks_of_entries) (simp add: dec_nonempty lit_def)
  moreover have "all_some (map read_block
      (map (\<lambda>x. dec (N x) # (fmt (A x) @ lit '' --> '' @ fmt (B x)) # (if T x = [] then [] else [T x])) xs)) =
    Some (map (\<lambda>x. (A x, B x, T x)) xs)"
    unfolding map_map comp_def using assms by (intro all_some_map) (simp add: read_block_entry)
  ultimately show ?thesis by (simp only: read_srt_def)
qed

lemma start_time_nonneg:
  "\<forall>u \<in> set subs. 0 \<le> durationMs u \<Longrightarrow> 0 \<le> start_time subs i"
  unfolding start_time_def by (intro sum_list_nonneg) (auto dest: in_set_takeD)

lemma exportSrt_roundtrip:
  assumes "\<forall>u \<in> set (subtitles st). 0 \<le> durationMs u \<and> LF \<notin> set (sub_text u)"
  shows "read_srt (exportSrt st) =
    Some (map (\<lambda>i. (start_time (subtitles st) i,
                      start_time (subtitles st) i + durationMs (subtitles st ! i),
                      sub_text (subtitles st ! i))) [0..<length (subtitles st)])"
proof -
  let ?subs = "subtitles st"
  have n: "toString (int i + 1) = dec (Suc i)" for i
    by (simp add: toString_def nat_add_distrib)
  have e: "exportSrt st = join [LF] (concat (map (\<lambda>i.
       [dec (Suc i), fmt (start_time ?subs i) @ lit '' --> '' @
          fmt (start_time ?subs i + durationMs (?subs ! i)),
        sub_text (?subs ! i), []]) [0..<length ?subs]))"
    by (simp add: exportSrt_def srt_lines_closed n)
  have "\<forall>i \<in> set [0..<length ?subs]. 0 \<le> start_time ?subs i \<and>
      0 \<le> start_time ?subs i + durationMs (?subs ! i) \<and> LF \<notin> set (sub_text (?subs ! i))"
  proof
    fix i assume "i \<in> set [0..<length ?subs]"
    then have i: "?subs ! i \<in> set ?subs" by simp
    have "0 \<le> start_time ?subs i" using assms by (intro start_time_nonneg) simp
    with assms i show "0 \<le> start_time ?subs i \<and>
      0 \<le> start_time ?subs i + durationMs (?subs ! i) \<and> LF \<notin> set (sub_text (?subs ! i))"
      by (simp add: add_nonneg_nonneg)
  qed
  then show ?thesis
    unfolding e by (rule read_srt_entries)
qed

lemma start_time_le_total:
  assumes "\<forall>u \<in> set subs. 0 \<le> durationMs u"
  shows "start_time subs i \<le> sum_list (map durationMs subs)"
proof -
  have "sum_list (map durationMs subs) =
      sum_list (map durationMs (take i subs)) + sum_list (map durationMs (drop i subs))"
    by (metis append_take_drop_id map_append sum_list_append)
  moreover have "0 \<le> sum_list (map durationMs (drop i subs))"
    using assms by (intro sum_list_nonneg) (auto dest: in_set_dropD)
  ultimately show ?thesis by (simp add: start_time_def)
qed

lemma times_in_range:
  assumes "\<forall>u \<in> set subs. 0 \<le> durationMs u" and "sum_list (map durationMs subs) < 2 ^ 53"
    and "i < length subs"
  shows "0 \<le> start_time subs i \<and> start_time subs i + durationMs (subs ! i) < 2 ^ 53"
proof
  show "0 \<le> start_time subs i" using assms(1) by (rule start_time_nonneg)
  have "start_time subs i + durationMs (subs ! i) = start_time subs (Suc i)"
    using assms(3) by (simp add: start_time_Suc)
  also have "\<dots> \<le> sum_list (map durationMs subs)" using assms(1) by (rule start_time_le_total)
  finally show "start_time subs i + durationMs (subs ! i) < 2 ^ 53" using assms(2) by simp
qed

text \<open>
  Claim C4, for captions whose durations are not negative and add up to less than
  \<open>2 ^ 53\<close> milliseconds, the range in which the running time of the source is an exact
  integer. The exported document is the lines of the captions joined by newlines; the
  \<open>i\<close>-th caption contributes the counter \<open>i + 1\<close>, the line
  \<open>fmt start --> fmt end\<close>, its text and an empty line, where the start is the sum of the
  durations before it (0 for the first) and the end is the start plus its own duration,
  which is the start of the next; every start and end is in the range. For a time in the
  range, \<open>fmt\<close> writes the hours (all of them, at least two digits), two digits of
  minutes, two of seconds and three of milliseconds; 25 hours are written
  \<open>25:00:00,000\<close>. The captions A (1500 ms) and B (2000 ms) give the document of the
  specification, and the SubRip reader gets the triples (0, 1500, A) and (1500, 3500, B)
  back from it. More generally, when in addition no caption text contains a newline, the
  reader gets from the exported document the triples (start, end, text) of the captions,
  in order.
\<close>

theorem C4_exportSrt:
  "((\<forall>u \<in> set (subtitles st). 0 \<le> durationMs u) \<and>
    sum_list (map durationMs (subtitles st)) < 2 ^ 53 \<longrightarrow>
      exportSrt st =
        join [LF] (concat (map (\<lambda>i.
          [toString (int i + 1),
           fmt (start_time (subtitles st) i) @ lit '' --> '' @
             fmt (start_time (subtitles st) i + durationMs (subtitles st ! i)),
           sub_text (subtitles st ! i), []]) [0..<length (subtitles st)])) \<and>
      (\<forall>i < length (subtitles st).
         0 \<le> start_time (subtitles st) i \<and>
         start_time (subtitles st) i + durationMs (subtitles st ! i) < 2 ^ 53)) \<and>
   start_time (subtitles st) 0 = 0 \<and>
   (\<forall>i < length (subtitles st).
      start_time (subtitles st) (Suc i) = start_time (subtitles st) i + durationMs (subtitles st ! i)) \<and>
   (0 \<le> ms \<and> ms < 2 ^ 53 \<longrightarrow>
      fmt ms =
        (if ms div 3600000 < 10 then [digit 0, digit (nat (ms div 3600000))]
         else dec (nat (ms div 3600000))) @ lit '':'' @
        [digit (nat (ms div 60000 mod 60) div 10), digit (nat (ms div 60000 mod 60) mod 10)] @
        lit '':'' @
        [digit (nat (ms div 1000 mod 60) div 10), digit (nat (ms div 1000 mod 60) mod 10)] @
        lit '','' @
        [digit (nat (ms mod 1000) div 100), digit (nat (ms mod 1000) div 10 mod 10),
         digit (nat (ms mod 1000) mod 10)]) \<and>
   fmt 90000000 = lit ''25:00:00,000'' \<and>
   exportSrt (with_captions [page ''p1''] [caption ''a'' ''A'' 1500 0, caption ''b'' ''B'' 2000 0]) =
     lit ''1\<newline>00:00:00,000 --> 00:00:01,500\<newline>A\<newline>\<newline>2\<newline>00:00:01,500 --> 00:00:03,500\<newline>B\<newline>'' \<and>
   read_srt (exportSrt
       (with_captions [page ''p1''] [caption ''a'' ''A'' 1500 0, caption ''b'' ''B'' 2000 0])) =
     Some [(0, 1500, lit ''A''), (1500, 3500, lit ''B'')] \<and>
   ((\<forall>u \<in> set (subtitles st). 0 \<le> durationMs u \<and> LF \<notin> set (sub_text u)) \<and>
    sum_list (map durationMs (subtitles st)) < 2 ^ 53 \<longrightarrow>
      read_srt (exportSrt st) =
        Some (map (\<lambda>i. (start_time (subtitles st) i,
                          start_time (subtitles st) i + durationMs (subtitles st ! i),
                          sub_text (subtitles st ! i))) [0..<length (subtitles st)]))"
proof (intro conjI impI)
  assume "(\<forall>u \<in> set (subtitles st). 0 \<le> durationMs u) \<and>
    sum_list (map durationMs (subtitles st)) < 2 ^ 53"
  then show "\<forall>i < length (subtitles st).
      0 \<le> start_time (subtitles st) i \<and>
      start_time (subtitles st) i + durationMs (subtitles st ! i) < 2 ^ 53"
    using times_in_range [of "subtitles st"] by blast
next
  show "exportSrt st =
     join [LF] (concat (map (\<lambda>i.
       [toString (int i + 1),
        fmt (start_time (subtitles st) i) @ lit '' --> '' @
          fmt (start_time (subtitles st) i + durationMs (subtitles st ! i)),
        sub_text (subtitles st ! i), []]) [0..<length (subtitles st)]))"
    by (simp add: exportSrt_def srt_lines_closed)
  show "start_time (subtitles st) 0 = 0"
    by (rule start_time_0)
  show "\<forall>i < length (subtitles st).
      start_time (subtitles st) (Suc i) = start_time (subtitles st) i + durationMs (subtitles st ! i)"
    by (simp add: start_time_Suc)
  show "fmt ms =
        (if ms div 3600000 < 10 then [digit 0, digit (nat (ms div 3600000))]
         else dec (nat (ms div 3600000))) @ lit '':'' @
        [digit (nat (ms div 60000 mod 60) div 10), digit (nat (ms div 60000 mod 60) mod 10)] @
        lit '':'' @
        [digit (nat (ms div 1000 mod 60) div 10), digit (nat (ms div 1000 mod 60) mod 10)] @
        lit '','' @
        [digit (nat (ms mod 1000) div 100), digit (nat (ms mod 1000) div 10 mod 10),
         digit (nat (ms mod 1000) mod 10)]" if "0 \<le> ms \<and> ms < 2 ^ 53"
    using fmt_nonneg [of ms] that by blast
  show "fmt 90000000 = lit ''25:00:00,000''"
    by code_simp
  show "exportSrt (with_captions [page ''p1''] [caption ''a'' ''A'' 1500 0, caption ''b'' ''B'' 2000 0]) =
     lit ''1\<newline>00:00:00,000 --> 00:00:01,500\<newline>A\<newline>\<newline>2\<newline>00:00:01,500 --> 00:00:03,500\<newline>B\<newline>''"
    by code_simp
  show "read_srt (exportSrt
       (with_captions [page ''p1''] [caption ''a'' ''A'' 1500 0, caption ''b'' ''B'' 2000 0])) =
     Some [(0, 1500, lit ''A''), (1500, 3500, lit ''B'')]"
    by code_simp
  show "read_srt (exportSrt st) =
        Some (map (\<lambda>i. (start_time (subtitles st) i,
                          start_time (subtitles st) i + durationMs (subtitles st ! i),
                          sub_text (subtitles st ! i))) [0..<length (subtitles st)])"
    if "(\<forall>u \<in> set (subtitles st). 0 \<le> durationMs u \<and> LF \<notin> set (sub_text u)) \<and>
      sum_list (map durationMs (subtitles st)) < 2 ^ 53"
    using exportSrt_roundtrip [of st] that by blast
qed

theorem C4_exportSrt_witness:
  "fmt 3723004 = lit ''01:02:03,004'' \<and>
   start_time [caption ''a'' ''A'' 1500 0, caption ''b'' ''B'' 2000 0] 2 = 3500 \<and>
   exportSrt (with_captions [page ''p1''] [caption ''a'' ''A'' 1500 0, caption ''b'' ''B'' 2000 0]) =
     join [LF]
       [toString 1, fmt 0 @ lit '' --> '' @ fmt 1500, lit ''A'', [],
        toString 2, fmt 1500 @ lit '' --> '' @ fmt 3500, lit ''B'', []] \<and>
   read_srt (exportSrt
       (with_captions [page ''p1''] [caption ''a'' ''A'' 1500 0, caption ''b'' ''B'' 2000 0])) =
     Some [(0, 1500, lit ''A''), (1500, 3500, lit ''B'')]"
proof -
  let ?st = "with_captions [page ''p1''] [caption ''a'' ''A'' 1500 0, caption ''b'' ''B'' 2000 0]"
  note c = C4_exportSrt [of ?st 3723004]
  have s: "subtitles ?st = [caption ''a'' ''A'' 1500 0, caption ''b'' ''B'' 2000 0]"
    by (simp add: with_captions_def)
  have "(0::int) \<le> 3723004 \<and> (3723004::int) < 2 ^ 53" by simp
  with c [THEN conjunct2, THEN conjunct2, THEN conjunct2, THEN conjunct1]
  have "fmt 3723004 =
        (if (3723004::int) div 3600000 < 10 then [digit 0, digit (nat (3723004 div 3600000))]
         else dec (nat (3723004 div 3600000))) @ lit '':'' @
        [digit (nat (3723004 div 60000 mod 60) div 10), digit (nat (3723004 div 60000 mod 60) mod 10)] @
        lit '':'' @
        [digit (nat (3723004 div 1000 mod 60) div 10), digit (nat (3723004 div 1000 mod 60) mod 10)] @
        lit '','' @
        [digit (nat (3723004 mod 1000) div 100), digit (nat (3723004 mod 1000) div 10 mod 10),
         digit (nat (3723004 mod 1000) mod 10)]"
    by (rule mp)
  then have f: "fmt 3723004 = lit ''01:02:03,004''"
    by (simp add: lit_def digit_def)
  have t0: "start_time (subtitles ?st) 0 = 0"
    by (rule c [THEN conjunct2, THEN conjunct1])
  have t: "\<forall>i < length (subtitles ?st).
      start_time (subtitles ?st) (Suc i) = start_time (subtitles ?st) i + durationMs (subtitles ?st ! i)"
    by (rule c [THEN conjunct2, THEN conjunct2, THEN conjunct1])
  have t1: "start_time (subtitles ?st) 1 = 1500" and t2: "start_time (subtitles ?st) 2 = 3500"
    using t0 t unfolding s by (simp_all add: caption_def numeral_2_eq_2)
  have d: "(\<forall>u \<in> set (subtitles ?st). 0 \<le> durationMs u) \<and>
      sum_list (map durationMs (subtitles ?st)) < 2 ^ 53"
    unfolding s by (simp add: caption_def)
  with c [THEN conjunct1]
  have "exportSrt ?st =
        join [LF] (concat (map (\<lambda>i.
          [toString (int i + 1),
           fmt (start_time (subtitles ?st) i) @ lit '' --> '' @
             fmt (start_time (subtitles ?st) i + durationMs (subtitles ?st ! i)),
           sub_text (subtitles ?st ! i), []]) [0..<length (subtitles ?st)])) \<and>
      (\<forall>i < length (subtitles ?st).
         0 \<le> start_time (subtitles ?st) i \<and>
         start_time (subtitles ?st) i + durationMs (subtitles ?st ! i) < 2 ^ 53)"
    by (rule mp)
  then have e: "exportSrt ?st =
        join [LF] (concat (map (\<lambda>i.
          [toString (int i + 1),
           fmt (start_time (subtitles ?st) i) @ lit '' --> '' @
             fmt (start_time (subtitles ?st) i + durationMs (subtitles ?st ! i)),
           sub_text (subtitles ?st ! i), []]) [0..<length (subtitles ?st)]))"
    by (rule conjunct1)
  have u: "[0..<length (subtitles ?st)] = [0, 1]"
    unfolding s by (simp add: upt_rec)
  have x: "exportSrt ?st =
     join [LF]
       [toString 1, fmt 0 @ lit '' --> '' @ fmt 1500, lit ''A'', [],
        toString 2, fmt 1500 @ lit '' --> '' @ fmt 3500, lit ''B'', []]"
    unfolding e u using t0 t1 unfolding s by (simp add: caption_def)
  have "(\<forall>u \<in> set (subtitles ?st). 0 \<le> durationMs u \<and> LF \<notin> set (sub_text u)) \<and>
      sum_list (map durationMs (subtitles ?st)) < 2 ^ 53"
    unfolding s by (simp add: caption_def lit_def LF_def)
  with c [THEN conjunct2, THEN conjunct2, THEN conjunct2, THEN conjunct2, THEN conjunct2,
      THEN conjunct2, THEN conjunct2]
  have "read_srt (exportSrt ?st) =
      Some (map (\<lambda>i. (start_time (subtitles ?st) i,
                        start_time (subtitles ?st) i + durationMs (subtitles ?st ! i),
                        sub_text (subtitles ?st ! i))) [0..<length (subtitles ?st)])"
    by (rule mp)
  also have "map (\<lambda>i. (start_time (subtitles ?st) i,
                        start_time (subtitles ?st) i + durationMs (subtitles ?st ! i),
                        sub_text (subtitles ?st ! i))) [0..<length (subtitles ?st)] =
      [(0, 1500, lit ''A''), (1500, 3500, lit ''B'')]"
    using t0 t1 unfolding s by (simp add: caption_def upt_rec [of 0] upt_rec [of 1] numeral_2_eq_2)
  finally show ?thesis
    using f t2 x unfolding s by (intro conjI)
qed

end
